theory Spec2Isabelle
  imports Main "HOL-Library.AList"
begin

section \<open>Path and string helpers of the Python standard library\<close>

text \<open>
  \<^verbatim>\<open>str.rfind(c)\<close>: the highest index at which the character occurs, or \<open>-1\<close>.
  The scan runs left to right and remembers the last hit.
\<close>

fun rfind_from :: "string \<Rightarrow> char \<Rightarrow> nat \<Rightarrow> int \<Rightarrow> int" where
  "rfind_from [] c i r = r"
| "rfind_from (x # xs) c i r = rfind_from xs c (Suc i) (if x = c then int i else r)"

definition rfind :: "string \<Rightarrow> char \<Rightarrow> int" where
  "rfind p c = rfind_from p c 0 (- 1)"

text \<open>
  \<^verbatim>\<open>genericpath._splitext(p, sep, altsep, extsep)\<close> as \<^verbatim>\<open>posixpath.splitext\<close> calls it
  (\<open>sep = '/'\<close>, \<open>altsep = None\<close>, \<open>extsep = '.'\<close>):
  \<^verbatim>\<open>
    sepIndex = p.rfind(sep)
    dotIndex = p.rfind(extsep)
    if dotIndex > sepIndex:
        # skip all leading dots
        filenameIndex = sepIndex + 1
        while filenameIndex < dotIndex:
            if p[filenameIndex:filenameIndex+1] != extsep:
                return p[:dotIndex], p[dotIndex:]
            filenameIndex += 1
    return p, p[:0]
  \<close>
  The loop is \<open>splitext_loop\<close>: \<open>Some\<close> is the \<^verbatim>\<open>return\<close> inside the loop, \<open>None\<close> is
  the loop running to its end.
\<close>

function splitext_loop :: "string \<Rightarrow> nat \<Rightarrow> nat \<Rightarrow> (string \<times> string) option" where
  "splitext_loop p filenameIndex dotIndex =
     (if filenameIndex < dotIndex then
        (if take 1 (drop filenameIndex p) \<noteq> ''.''
         then Some (take dotIndex p, drop dotIndex p)
         else splitext_loop p (filenameIndex + 1) dotIndex)
      else None)"
  by pat_completeness auto
termination
  by (relation "measure (\<lambda>(p, filenameIndex, dotIndex). dotIndex - filenameIndex)") auto

declare splitext_loop.simps [simp del]

definition splitext :: "string \<Rightarrow> string \<times> string" where
  "splitext p =
     (let sepIndex = rfind p CHR ''/'';
          dotIndex = rfind p CHR ''.''
      in if dotIndex > sepIndex then
           (case splitext_loop p (nat (sepIndex + 1)) (nat dotIndex) of
              Some r \<Rightarrow> r
            | None \<Rightarrow> (p, take 0 p))
         else (p, take 0 p))"

text \<open>\<^verbatim>\<open>str.split(sep)\<close> for a one-character separator: never the empty list.\<close>

fun split_on :: "char \<Rightarrow> string \<Rightarrow> string list" where
  "split_on sep [] = [[]]"
| "split_on sep (c # cs) =
     (if c = sep then [] # split_on sep cs
      else (case split_on sep cs of [] \<Rightarrow> [[c]] | w # ws \<Rightarrow> (c # w) # ws))"

text \<open>Line 91: \<^verbatim>\<open>receipt_id = os.path.splitext(blob.name.split('/')[-1])[0]\<close>.\<close>

definition blob_basename :: "string \<Rightarrow> string" where
  "blob_basename name = last (split_on CHR ''/'' name)"

definition analyze_receipt_id :: "string \<Rightarrow> string" where
  "analyze_receipt_id name = fst (splitext (blob_basename name))"

text \<open>Line 67: \<^verbatim>\<open>receipt_id = os.path.splitext(blob_name)[0]\<close>.\<close>

definition reader_receipt_id :: "string \<Rightarrow> string" where
  "reader_receipt_id blob_name = fst (splitext blob_name)"


section \<open>Python values, exceptions and the float runtime\<close>

text \<open>
  Exceptions are values: \<open>Inl e\<close> is "raised \<open>e\<close>". \<open>ServiceError\<close> stands for any
  exception of an external client (credentials, network, service response).
\<close>

datatype exn =
    AttributeError
  | TypeError
  | KeyError
  | OverflowError
  | JSONDecodeError
  | ResourceNotFoundError
  | ServiceError string

definition attempt :: "exn + 'a \<Rightarrow> ('a \<Rightarrow> exn + 'b) \<Rightarrow> exn + 'b" where
  "attempt m f = (case m of Inl e \<Rightarrow> Inl e | Inr a \<Rightarrow> f a)"

text \<open>
  The dynamically typed values the handlers touch. A \<open>dict\<close> is an association list in
  insertion order. \<open>VObject s a\<close> is an object of any other class (a \<^verbatim>\<open>DocumentField\<close>, a
  date, a \<^verbatim>\<open>CurrencyValue\<close>): \<open>s\<close> is what \<^verbatim>\<open>str()\<close> gives for it, \<open>a\<close> is its \<^verbatim>\<open>value\<close>
  attribute when it has one. The type \<open>'f\<close> is Python's \<^verbatim>\<open>float\<close>.
\<close>

datatype 'f pyval =
    VNone
  | VBool bool
  | VInt int
  | VFloat 'f
  | VStr string
  | VList "'f pyval list"
  | VDict "(string \<times> 'f pyval) list"
  | VObject string "'f pyval option"

definition DocumentField :: "'f pyval \<Rightarrow> 'f pyval" where
  "DocumentField v = VObject ''DocumentField'' (Some v)"

text \<open>
  Float arithmetic is not fixed by the model: every operation the handlers apply to a
  float is a field of the runtime, and the theorems hold for every runtime.
  \<open>float_of_int\<close> is \<open>None\<close> where Python raises \<^verbatim>\<open>OverflowError\<close>; \<open>float_repr\<close> is the
  text \<^verbatim>\<open>json.dumps\<close> writes for a float (\<^verbatim>\<open>float.__repr__\<close>, or \<^verbatim>\<open>NaN\<close>, \<^verbatim>\<open>Infinity\<close>,
  \<^verbatim>\<open>-Infinity\<close>); \<open>float_of_str\<close> is \<^verbatim>\<open>float(s)\<close> on the text of a JSON number.
\<close>

record 'f runtime =
  float_add :: "'f \<Rightarrow> 'f \<Rightarrow> 'f"
  float_of_int :: "int \<Rightarrow> 'f option"
  float_round :: "'f \<Rightarrow> int \<Rightarrow> 'f"
  float_is_zero :: "'f \<Rightarrow> bool"
  float_repr :: "'f \<Rightarrow> string"
  float_of_str :: "string \<Rightarrow> 'f"

text \<open>Attribute access \<^verbatim>\<open>x.value\<close>, \<^verbatim>\<open>d.get(k, default)\<close>, \<^verbatim>\<open>d[k]\<close>, truth value, \<^verbatim>\<open>a or b\<close>, iteration.\<close>

fun attr_value :: "'f pyval \<Rightarrow> exn + 'f pyval" where
  "attr_value (VObject s (Some v)) = Inr v"
| "attr_value _ = Inl AttributeError"

fun dict_get :: "'f pyval \<Rightarrow> string \<Rightarrow> 'f pyval \<Rightarrow> exn + 'f pyval" where
  "dict_get (VDict kvs) k d = Inr (case map_of kvs k of Some v \<Rightarrow> v | None \<Rightarrow> d)"
| "dict_get _ k d = Inl AttributeError"

fun dict_index :: "'f pyval \<Rightarrow> string \<Rightarrow> exn + 'f pyval" where
  "dict_index (VDict kvs) k = (case map_of kvs k of Some v \<Rightarrow> Inr v | None \<Rightarrow> Inl KeyError)"
| "dict_index _ k = Inl TypeError"

fun truthy :: "'f runtime \<Rightarrow> 'f pyval \<Rightarrow> bool" where
  "truthy R VNone = False"
| "truthy R (VBool b) = b"
| "truthy R (VInt i) = (i \<noteq> 0)"
| "truthy R (VFloat f) = (\<not> float_is_zero R f)"
| "truthy R (VStr s) = (s \<noteq> [])"
| "truthy R (VList xs) = (xs \<noteq> [])"
| "truthy R (VDict kvs) = (kvs \<noteq> [])"
| "truthy R (VObject s a) = True"

definition py_or :: "'f runtime \<Rightarrow> 'f pyval \<Rightarrow> 'f pyval \<Rightarrow> 'f pyval" where
  "py_or R a b = (if truthy R a then a else b)"

fun py_iter :: "'f pyval \<Rightarrow> exn + 'f pyval list" where
  "py_iter (VList xs) = Inr xs"
| "py_iter (VStr s) = Inr (map (\<lambda>c. VStr [c]) s)"
| "py_iter (VDict kvs) = Inr (map (\<lambda>kv. VStr (fst kv)) kvs)"
| "py_iter _ = Inl TypeError"

text \<open>
  Numbers: \<^verbatim>\<open>bool\<close> is a subclass of \<^verbatim>\<open>int\<close>. \<open>py_add\<close> is \<^verbatim>\<open>acc + x\<close> as \<^verbatim>\<open>sum\<close> meets it:
  the left operand is the numeric accumulator, so a right operand that is no number
  raises \<^verbatim>\<open>TypeError\<close>. \<open>py_round\<close> is \<^verbatim>\<open>round(x, ndigits)\<close> with \<open>0 \<le> ndigits\<close>.
\<close>

datatype 'f num = NInt int | NFloat 'f

fun as_num :: "'f pyval \<Rightarrow> 'f num option" where
  "as_num (VBool b) = Some (NInt (if b then 1 else 0))"
| "as_num (VInt i) = Some (NInt i)"
| "as_num (VFloat f) = Some (NFloat f)"
| "as_num _ = None"

definition is_number :: "'f pyval \<Rightarrow> bool" where
  "is_number v = (as_num v \<noteq> None)"

definition to_float :: "'f runtime \<Rightarrow> 'f num \<Rightarrow> exn + 'f" where
  "to_float R n =
     (case n of
        NFloat f \<Rightarrow> Inr f
      | NInt i \<Rightarrow> (case float_of_int R i of None \<Rightarrow> Inl OverflowError | Some f \<Rightarrow> Inr f))"

definition py_add :: "'f runtime \<Rightarrow> 'f pyval \<Rightarrow> 'f pyval \<Rightarrow> exn + 'f pyval" where
  "py_add R a b =
     (case (as_num a, as_num b) of
        (Some (NInt i), Some (NInt j)) \<Rightarrow> Inr (VInt (i + j))
      | (Some x, Some y) \<Rightarrow>
          attempt (to_float R x) (\<lambda>f. attempt (to_float R y) (\<lambda>g. Inr (VFloat (float_add R f g))))
      | _ \<Rightarrow> Inl TypeError)"

definition py_round :: "'f runtime \<Rightarrow> 'f pyval \<Rightarrow> int \<Rightarrow> exn + 'f pyval" where
  "py_round R x ndigits =
     (case as_num x of
        Some (NInt i) \<Rightarrow> Inr (VInt i)
      | Some (NFloat f) \<Rightarrow> Inr (VFloat (float_round R f ndigits))
      | None \<Rightarrow> Inl TypeError)"

section \<open>\<^verbatim>\<open>json.dumps\<close>\<close>

definition digit_char :: "nat \<Rightarrow> char" where
  "digit_char d = char_of (48 + d)"

fun show_nat :: "nat \<Rightarrow> string" where
  "show_nat n = (if n < 10 then [digit_char n] else show_nat (n div 10) @ [digit_char (n mod 10)])"

declare show_nat.simps [simp del]

definition show_int :: "int \<Rightarrow> string" where
  "show_int i = (if i < 0 then CHR ''-'' # show_nat (nat (- i)) else show_nat (nat i))"

definition hex_char :: "nat \<Rightarrow> char" where
  "hex_char d = (if d < 10 then char_of (48 + d) else char_of (87 + d))"

text \<open>
  \<^verbatim>\<open>py_encode_basestring_ascii\<close>: a printable ASCII character other than the quote
  and the backslash is kept; every other character is escaped, by the short table or
  as \<^verbatim>\<open>\uXXXX\<close>. Strings here hold code points below 256, so the first two hex digits
  are zero.
\<close>

definition escape_char :: "char \<Rightarrow> string" where
  "escape_char c =
     (if c = CHR 0x5C then [CHR 0x5C, CHR 0x5C]
      else if c = CHR 0x22 then [CHR 0x5C, CHR 0x22]
      else if c = CHR 0x08 then [CHR 0x5C, CHR ''b'']
      else if c = CHR 0x0C then [CHR 0x5C, CHR ''f'']
      else if c = CHR 0x0A then [CHR 0x5C, CHR ''n'']
      else if c = CHR 0x0D then [CHR 0x5C, CHR ''r'']
      else if c = CHR 0x09 then [CHR 0x5C, CHR ''t'']
      else if 32 \<le> (of_char c :: nat) \<and> (of_char c :: nat) \<le> 126 then [c]
      else [CHR 0x5C, CHR ''u'', CHR ''0'', CHR ''0'',
            hex_char ((of_char c :: nat) div 16), hex_char ((of_char c :: nat) mod 16)])"

definition encode_str :: "string \<Rightarrow> string" where
  "encode_str s = CHR 0x22 # concat (map escape_char s) @ [CHR 0x22]"

fun join :: "string \<Rightarrow> string list \<Rightarrow> string" where
  "join sep [] = []"
| "join sep [x] = x"
| "join sep (x # y # ys) = x @ sep @ join sep (y # ys)"

text \<open>
  \<open>json_dumps R dflt v\<close> is \<^verbatim>\<open>json.dumps(v)\<close> when \<open>dflt\<close> is \<open>False\<close> and
  \<^verbatim>\<open>json.dumps(v, default=str)\<close> when it is \<open>True\<close>, with the default separators
  \<^verbatim>\<open>', '\<close> and \<^verbatim>\<open>': '\<close>. An object of a class \<^verbatim>\<open>json\<close> does not know raises \<^verbatim>\<open>TypeError\<close>
  unless the default hook turns it into its \<^verbatim>\<open>str()\<close>.
\<close>

fun json_dumps :: "'f runtime \<Rightarrow> bool \<Rightarrow> 'f pyval \<Rightarrow> exn + string"
  and dumps_elems :: "'f runtime \<Rightarrow> bool \<Rightarrow> 'f pyval list \<Rightarrow> exn + string list"
  and dumps_pairs :: "'f runtime \<Rightarrow> bool \<Rightarrow> (string \<times> 'f pyval) list \<Rightarrow> exn + string list"
where
  "json_dumps R dflt VNone = Inr ''null''"
| "json_dumps R dflt (VBool b) = Inr (if b then ''true'' else ''false'')"
| "json_dumps R dflt (VInt i) = Inr (show_int i)"
| "json_dumps R dflt (VFloat f) = Inr (float_repr R f)"
| "json_dumps R dflt (VStr s) = Inr (encode_str s)"
| "json_dumps R dflt (VList xs) =
     attempt (dumps_elems R dflt xs) (\<lambda>parts. Inr (''['' @ join '', '' parts @ '']''))"
| "json_dumps R dflt (VDict kvs) =
     attempt (dumps_pairs R dflt kvs) (\<lambda>parts. Inr (''{'' @ join '', '' parts @ ''}''))"
| "json_dumps R dflt (VObject s a) = (if dflt then Inr (encode_str s) else Inl TypeError)"
| "dumps_elems R dflt [] = Inr []"
| "dumps_elems R dflt (x # xs) =
     attempt (json_dumps R dflt x) (\<lambda>p. attempt (dumps_elems R dflt xs) (\<lambda>ps. Inr (p # ps)))"
| "dumps_pairs R dflt [] = Inr []"
| "dumps_pairs R dflt (kv # kvs) =
     attempt (json_dumps R dflt (snd kv)) (\<lambda>p.
       attempt (dumps_pairs R dflt kvs) (\<lambda>ps. Inr ((encode_str (fst kv) @ '': '' @ p) # ps)))"

section \<open>The external services of one invocation\<close>

text \<open>
  The storage account, the SAS generator, the document-analysis service and the clock are
  outside the repository. Each call is a field of \<open>services\<close> that gives the call's
  result, or the exception it raises.
\<close>

datatype sas_permission = SasRead | SasWrite

record sas_request =
  sas_account_name :: string
  sas_container_name :: string
  sas_blob_name :: string
  sas_account_key :: string
  sas_permission :: sas_permission
  sas_expiry :: nat

record storage_account =
  account_name :: string
  account_key :: "exn + string"

record 'f analyzed_document =
  doc_fields :: "'f pyval"

record 'f analyze_result =
  documents :: "'f analyzed_document list option"

record 'f services =
  doc_analysis_client :: "exn + unit"
  blob_service_client :: "exn + storage_account"
  generate_blob_sas :: "sas_request \<Rightarrow> exn + string"
  begin_analyze_document_from_url :: "string \<Rightarrow> string \<Rightarrow> exn + 'f analyze_result"
  utcnow :: nat
  uuid4 :: string

definition RECEIPT_CONTAINER_NAME :: string where
  "RECEIPT_CONTAINER_NAME = ''receipts''"

definition RESULTS_TABLE_NAME :: string where
  "RESULTS_TABLE_NAME = ''receiptresults''"

record http_response =
  status_code :: nat
  body :: string

section \<open>\<^verbatim>\<open>get_upload_url\<close> (lines 33 to 56)\<close>

definition upload_blob_name :: "'f services \<Rightarrow> string" where
  "upload_blob_name S = uuid4 S @ ''.jpg''"

definition get_upload_url_try :: "'f runtime \<Rightarrow> 'f services \<Rightarrow> exn + http_response" where
  "get_upload_url_try R S =
     attempt (blob_service_client S) (\<lambda>client.
     let blob_name = upload_blob_name S in
     attempt (account_key client) (\<lambda>key.
     attempt (generate_blob_sas S
        \<lparr>sas_account_name = account_name client,
         sas_container_name = RECEIPT_CONTAINER_NAME,
         sas_blob_name = blob_name,
         sas_account_key = key,
         sas_permission = SasWrite,
         sas_expiry = utcnow S + 5 * 60\<rparr>) (\<lambda>sas_token.
     let sas_url = ''https://'' @ account_name client @ ''.blob.core.windows.net/''
                   @ RECEIPT_CONTAINER_NAME @ ''/'' @ blob_name @ ''?'' @ sas_token in
     attempt (json_dumps R False (VDict [(''sasUrl'', VStr sas_url), (''blobName'', VStr blob_name)]))
       (\<lambda>encoded. Inr \<lparr>status_code = 200, body = encoded\<rparr>))))"

definition get_upload_url :: "'f runtime \<Rightarrow> 'f services \<Rightarrow> http_response" where
  "get_upload_url R S =
     (case get_upload_url_try R S of
        Inr response \<Rightarrow> response
      | Inl e \<Rightarrow> \<lparr>status_code = 500, body = ''Failed to generate upload URL.''\<rparr>)"

section \<open>\<^verbatim>\<open>AnalyzeReceipt\<close> (lines 90 to 136)\<close>

text \<open>
  \<open>get_value d k\<close> is the expression \<^verbatim>\<open>d.get(k, {}).value\<close>: with the key missing, the
  default \<^verbatim>\<open>{}\<close> is a \<open>dict\<close> and has no attribute \<^verbatim>\<open>value\<close>. Lines 116 to 120 are the body of
  the loop over the items.
\<close>

definition get_value :: "'f pyval \<Rightarrow> string \<Rightarrow> exn + 'f pyval" where
  "get_value d k = attempt (dict_get d k (VDict [])) attr_value"

definition extract_item :: "'f runtime \<Rightarrow> 'f pyval \<Rightarrow> exn + 'f pyval" where
  "extract_item R item =
     attempt (attr_value item) (\<lambda>item_props.
     attempt (get_value item_props ''Description'') (\<lambda>description.
     attempt (get_value item_props ''TotalPrice'') (\<lambda>price.
       Inr (VDict [(''description'', description),
                   (''totalPrice'', py_or R price (VInt 0))]))))"

fun items_loop :: "'f runtime \<Rightarrow> 'f pyval list \<Rightarrow> 'f pyval list \<Rightarrow> exn + 'f pyval list" where
  "items_loop R [] items_list = Inr items_list"
| "items_loop R (item # rest) items_list =
     attempt (extract_item R item) (\<lambda>d. items_loop R rest (items_list @ [d]))"

text \<open>Lines 113 to 120: \<^verbatim>\<open>items_list\<close>.\<close>

definition receipt_items :: "'f runtime \<Rightarrow> 'f pyval \<Rightarrow> exn + 'f pyval list" where
  "receipt_items R receipt =
     attempt (dict_get receipt ''Items'' VNone) (\<lambda>items_field.
       if truthy R items_field then
         attempt (attr_value items_field) (\<lambda>items_value.
           if truthy R items_value then
             attempt (py_iter items_value) (\<lambda>items. items_loop R items [])
           else Inr [])
       else Inr [])"

text \<open>
  Line 122: \<^verbatim>\<open>sum(item['totalPrice'] for item in items_list)\<close>, starting from the integer
  \<^verbatim>\<open>0\<close> and adding from left to right. The additions of floats are the runtime's
  \<open>float_add\<close>, of which the theorems assume nothing.
\<close>

fun total_price_loop :: "'f runtime \<Rightarrow> 'f pyval \<Rightarrow> 'f pyval list \<Rightarrow> exn + 'f pyval" where
  "total_price_loop R acc [] = Inr acc"
| "total_price_loop R acc (item # rest) =
     attempt (dict_index item ''totalPrice'') (\<lambda>price.
     attempt (py_add R acc price) (\<lambda>acc'. total_price_loop R acc' rest))"

definition total_price_sum :: "'f runtime \<Rightarrow> 'f pyval list \<Rightarrow> exn + 'f pyval" where
  "total_price_sum R items_list = total_price_loop R (VInt 0) items_list"

definition calculated_subtotal :: "'f runtime \<Rightarrow> 'f pyval list \<Rightarrow> exn + 'f pyval" where
  "calculated_subtotal R items_list =
     attempt (total_price_sum R items_list) (\<lambda>s. py_round R s 2)"

text \<open>Lines 112 to 131: \<^verbatim>\<open>output_data\<close>.\<close>

definition output_data :: "'f runtime \<Rightarrow> string \<Rightarrow> 'f pyval \<Rightarrow> exn + 'f pyval" where
  "output_data R receipt_id receipt =
     attempt (receipt_items R receipt) (\<lambda>items_list.
     attempt (calculated_subtotal R items_list) (\<lambda>subtotal.
     attempt (json_dumps R False (VList items_list)) (\<lambda>items_json.
     attempt (get_value receipt ''TotalTax'') (\<lambda>tax.
     attempt (get_value receipt ''Total'') (\<lambda>total.
       Inr (VDict [(''PartitionKey'', VStr ''receipt''),
                   (''RowKey'', VStr receipt_id),
                   (''items'', VStr items_json),
                   (''subtotal'', subtotal),
                   (''tax'', py_or R tax (VInt 0)),
                   (''total'', py_or R total (VInt 0))]))))))"

text \<open>
  Lines 95 to 109: the clients, the read-only SAS URL of the blob (five minutes), and the
  analysis run to completion with the \<^verbatim>\<open>prebuilt-receipt\<close> model.
\<close>

definition request_analysis :: "'f services \<Rightarrow> string \<Rightarrow> exn + 'f analyze_result" where
  "request_analysis S name =
     attempt (doc_analysis_client S) (\<lambda>doc_client.
     attempt (blob_service_client S) (\<lambda>client.
     attempt (account_key client) (\<lambda>key.
     attempt (generate_blob_sas S
        \<lparr>sas_account_name = account_name client,
         sas_container_name = RECEIPT_CONTAINER_NAME,
         sas_blob_name = blob_basename name,
         sas_account_key = key,
         sas_permission = SasRead,
         sas_expiry = utcnow S + 5 * 60\<rparr>) (\<lambda>sas_token.
     let sas_url = ''https://'' @ account_name client @ ''.blob.core.windows.net/''
                   @ name @ ''?'' @ sas_token in
     begin_analyze_document_from_url S ''prebuilt-receipt'' sas_url))))"

text \<open>
  Lines 95 to 134, the body of the \<^verbatim>\<open>try\<close>: \<open>Inl e\<close> when a step raises \<open>e\<close>, otherwise the
  value of \<^verbatim>\<open>tableOutput\<close> at the end (\<open>None\<close>: never set).
\<close>

definition AnalyzeReceipt_try ::
  "'f runtime \<Rightarrow> 'f services \<Rightarrow> string \<Rightarrow> string \<Rightarrow> exn + string option" where
  "AnalyzeReceipt_try R S name receipt_id =
     attempt (request_analysis S name) (\<lambda>result.
       case documents result of
         Some (document # others) \<Rightarrow>
           attempt (output_data R receipt_id (doc_fields document)) (\<lambda>data.
           attempt (json_dumps R False data) (\<lambda>encoded. Inr (Some encoded)))
       | _ \<Rightarrow> Inr None)"

text \<open>
  The function: \<open>Inl e\<close> would be an exception leaving it, \<open>Inr out\<close> is a normal return
  with \<^verbatim>\<open>tableOutput\<close> holding \<open>out\<close>. The handler of line 135 logs and returns.
\<close>

definition AnalyzeReceipt :: "'f runtime \<Rightarrow> 'f services \<Rightarrow> string \<Rightarrow> exn + string option" where
  "AnalyzeReceipt R S name =
     (let receipt_id = analyze_receipt_id name in
      case AnalyzeReceipt_try R S name receipt_id of
        Inr out \<Rightarrow> Inr out
      | Inl e \<Rightarrow> Inr None)"

section \<open>\<^verbatim>\<open>json.loads\<close>\<close>

text \<open>
  The decoder reads the text in two passes that together accept what Python's scanner
  accepts: \<open>json_lex\<close> cuts the text into tokens (skipping the whitespace \<^verbatim>\<open>json\<close> skips),
  \<open>parse\<close> runs the grammar over them. Numbers follow \<^verbatim>\<open>NUMBER_RE\<close>,
  \<^verbatim>\<open>(-?(?:0|[1-9]\d*))(\.\d+)?([eE][-+]?\d+)?\<close>: with a fraction or an exponent the value is
  \<^verbatim>\<open>float(text)\<close>, otherwise \<^verbatim>\<open>int(text)\<close>.
\<close>

definition is_digit :: "char \<Rightarrow> bool" where
  "is_digit c = (48 \<le> (of_char c :: nat) \<and> (of_char c :: nat) \<le> 57)"

definition digit_val :: "char \<Rightarrow> nat" where
  "digit_val c = of_char c - 48"

definition parse_nat :: "string \<Rightarrow> nat" where
  "parse_nat s = foldl (\<lambda>n c. 10 * n + digit_val c) 0 s"

definition parse_int :: "string \<Rightarrow> int" where
  "parse_int s =
     (case s of
        [] \<Rightarrow> 0
      | c # cs \<Rightarrow> if c = CHR ''-'' then - int (parse_nat cs) else int (parse_nat s))"

definition scan_sign :: "string \<Rightarrow> string \<times> string" where
  "scan_sign s =
     (case s of
        [] \<Rightarrow> ([], s)
      | c # cs \<Rightarrow> if c = CHR ''-'' then ([c], cs) else ([], s))"

definition scan_int_part :: "string \<Rightarrow> (string \<times> string) option" where
  "scan_int_part s =
     (case s of
        [] \<Rightarrow> None
      | c # cs \<Rightarrow>
          if c = CHR ''0'' then Some ([c], cs)
          else if is_digit c then Some (c # takeWhile is_digit cs, dropWhile is_digit cs)
          else None)"

definition scan_frac :: "string \<Rightarrow> string \<times> string" where
  "scan_frac s =
     (case s of
        [] \<Rightarrow> ([], s)
      | c # cs \<Rightarrow>
          if c = CHR ''.'' \<and> takeWhile is_digit cs \<noteq> []
          then (c # takeWhile is_digit cs, dropWhile is_digit cs)
          else ([], s))"

definition scan_exp :: "string \<Rightarrow> string \<times> string" where
  "scan_exp s =
     (case s of
        [] \<Rightarrow> ([], s)
      | c # cs \<Rightarrow>
          if c = CHR ''e'' \<or> c = CHR ''E'' then
            (let sg = (case cs of
                         [] \<Rightarrow> []
                       | d # ds \<Rightarrow> if d = CHR ''-'' \<or> d = CHR ''+'' then [d] else []);
                 ds = drop (length sg) cs
             in if takeWhile is_digit ds \<noteq> []
                then (c # sg @ takeWhile is_digit ds, dropWhile is_digit ds)
                else ([], s))
          else ([], s))"

definition scan_number :: "string \<Rightarrow> ((string \<times> string \<times> string) \<times> string) option" where
  "scan_number s =
     (case scan_int_part (snd (scan_sign s)) of
        None \<Rightarrow> None
      | Some (ip, s2) \<Rightarrow>
          let (fr, s3) = scan_frac s2;
              (ex, s4) = scan_exp s3
          in Some ((fst (scan_sign s) @ ip, fr, ex), s4))"

definition number_value :: "'f runtime \<Rightarrow> string \<times> string \<times> string \<Rightarrow> 'f pyval" where
  "number_value R parts =
     (case parts of
        (integer, frac, exp) \<Rightarrow>
          if frac \<noteq> [] \<or> exp \<noteq> [] then VFloat (float_of_str R (integer @ frac @ exp))
          else VInt (parse_int integer))"

text \<open>
  Strings (\<^verbatim>\<open>scanstring\<close>, strict): a control character is an error; an escape is one of
  the short table or \<^verbatim>\<open>\uXXXX\<close> with four hex digits. Strings here hold code points
  below 256; an escape above that is outside them and is read modulo 256.
\<close>

definition hex_val :: "char \<Rightarrow> nat option" where
  "hex_val c =
     (let n = (of_char c :: nat) in
      if 48 \<le> n \<and> n \<le> 57 then Some (n - 48)
      else if 97 \<le> n \<and> n \<le> 102 then Some (n - 87)
      else if 65 \<le> n \<and> n \<le> 70 then Some (n - 55)
      else None)"

definition hex4 :: "string \<Rightarrow> nat option" where
  "hex4 s =
     (case map hex_val s of
        [Some a, Some b, Some c, Some d] \<Rightarrow> Some (((a * 16 + b) * 16 + c) * 16 + d)
      | _ \<Rightarrow> None)"

definition unescape :: "char \<Rightarrow> char option" where
  "unescape e =
     (if e = CHR 0x22 then Some (CHR 0x22)
      else if e = CHR 0x5C then Some (CHR 0x5C)
      else if e = CHR ''/'' then Some (CHR ''/'')
      else if e = CHR ''b'' then Some (CHR 0x08)
      else if e = CHR ''f'' then Some (CHR 0x0C)
      else if e = CHR ''n'' then Some (CHR 0x0A)
      else if e = CHR ''r'' then Some (CHR 0x0D)
      else if e = CHR ''t'' then Some (CHR 0x09)
      else None)"

definition consed :: "'a \<Rightarrow> ('a list \<times> 'b) option \<Rightarrow> ('a list \<times> 'b) option" where
  "consed c r = (case r of None \<Rightarrow> None | Some (s, rest) \<Rightarrow> Some (c # s, rest))"

function scan_string :: "string \<Rightarrow> (string \<times> string) option" where
  "scan_string [] = None"
| "scan_string (c # cs) =
     (if c = CHR 0x22 then Some ([], cs)
      else if c = CHR 0x5C then
        (case cs of
           [] \<Rightarrow> None
         | e # cs' \<Rightarrow>
             if e = CHR ''u'' then
               (case hex4 (take 4 cs') of
                  None \<Rightarrow> None
                | Some n \<Rightarrow> consed (char_of n) (scan_string (drop 4 cs')))
             else
               (case unescape e of
                  None \<Rightarrow> None
                | Some ch \<Rightarrow> consed ch (scan_string cs')))
      else if (of_char c :: nat) < 32 then None
      else consed c (scan_string cs))"
  by pat_completeness auto
termination
  by (relation "measure length") auto

declare scan_string.simps [simp del]

datatype 'f token = LBrace | RBrace | LBrack | RBrack | Comma | Colon | Str string | Atom "'f pyval"

definition starts_with :: "string \<Rightarrow> string \<Rightarrow> bool" where
  "starts_with p s = (take (length p) s = p)"

definition emit :: "'a \<Rightarrow> 'a list option \<Rightarrow> 'a list option" where
  "emit t r = (case r of None \<Rightarrow> None | Some ts \<Rightarrow> Some (t # ts))"

lemma consed_Some: "consed c r = Some (v, rest) \<Longrightarrow> \<exists>s. r = Some (s, rest) \<and> v = c # s"
  by (auto simp: consed_def split: option.splits)

lemma scan_string_shorter: "scan_string s = Some (v, rest) \<Longrightarrow> length rest < length s"
proof (induction s arbitrary: v rest rule: scan_string.induct)
  case 1
  then show ?case by (simp add: scan_string.simps)
next
  case (2 c cs)
  show ?case
  proof (cases "c = CHR 0x22")
    case True
    with "2.prems" show ?thesis by (simp add: scan_string.simps)
  next
    case nq: False
    show ?thesis
    proof (cases "c = CHR 0x5C")
      case bs: True
      then obtain e cs' where cs: "cs = e # cs'"
        using "2.prems" nq by (cases cs) (auto simp: scan_string.simps)
      show ?thesis
      proof (cases "e = CHR ''u''")
        case True
        then obtain n s where h: "hex4 (take 4 cs') = Some n"
          and r: "scan_string (drop 4 cs') = Some (s, rest)"
          using "2.prems" nq bs cs
          by (auto simp: scan_string.simps dest!: consed_Some split: option.splits)
        from "2.IH"(1) [OF nq bs cs True h r] show ?thesis using cs by simp
      next
        case False
        then obtain ch s where h: "unescape e = Some ch"
          and r: "scan_string cs' = Some (s, rest)"
          using "2.prems" nq bs cs
          by (auto simp: scan_string.simps dest!: consed_Some split: option.splits)
        from "2.IH"(2) [OF nq bs cs False h r] show ?thesis using cs by simp
      qed
    next
      case nb: False
      then have c32: "\<not> (of_char c :: nat) < 32" and r: "\<exists>s. scan_string cs = Some (s, rest)"
        using "2.prems" nq
        by (auto simp: scan_string.simps dest!: consed_Some split: if_splits)
      from r obtain s where "scan_string cs = Some (s, rest)" by blast
      from "2.IH"(3) [OF nq nb c32 this] show ?thesis by simp
    qed
  qed
qed

lemma scan_number_shorter: "scan_number s = Some (parts, rest) \<Longrightarrow> length rest < length s"
proof -
  have d: "length (dropWhile is_digit xs) \<le> length xs" for xs
    by (simp add: length_dropWhile_le)
  have fr: "length (snd (scan_frac xs)) \<le> length xs" for xs
    using d by (auto simp: scan_frac_def split: list.splits intro: le_SucI)
  have ex: "length (snd (scan_exp xs)) \<le> length xs" for xs
  proof (cases xs)
    case Nil
    then show ?thesis by (simp add: scan_exp_def)
  next
    case (Cons c cs)
    have "length (dropWhile is_digit (drop n cs)) \<le> length cs" for n
      using d [of "drop n cs"] by simp
    then show ?thesis
      using Cons d [of "tl cs"] d [of cs]
      by (auto simp: scan_exp_def Let_def split: list.splits intro: le_SucI)
  qed
  have ip: "scan_int_part xs = Some (a, b) \<Longrightarrow> length b < length xs" for xs a b
    using d by (auto simp: scan_int_part_def split: list.splits if_splits intro: le_imp_less_Suc)
  have sg: "length (snd (scan_sign xs)) \<le> length xs" for xs
    by (auto simp: scan_sign_def split: list.splits)
  assume "scan_number s = Some (parts, rest)"
  then obtain ip' s2 where 1: "scan_int_part (snd (scan_sign s)) = Some (ip', s2)"
    and 2: "rest = snd (scan_exp (snd (scan_frac s2)))"
    by (auto simp: scan_number_def Let_def split: option.splits prod.splits)
  from ip [OF 1] sg [of s] fr [of s2] ex [of "snd (scan_frac s2)"] 2 show ?thesis
    by simp
qed

function json_lex :: "'f runtime \<Rightarrow> string \<Rightarrow> 'f token list option" where
  "json_lex R [] = Some []"
| "json_lex R (c # cs) =
     (if c = CHR '' '' \<or> c = CHR 0x09 \<or> c = CHR 0x0A \<or> c = CHR 0x0D then json_lex R cs
      else if c = CHR 0x22 then
        (case scan_string cs of
           None \<Rightarrow> None
         | Some (s, rest) \<Rightarrow> emit (Str s) (json_lex R rest))
      else if c = CHR ''{'' then emit LBrace (json_lex R cs)
      else if c = CHR ''}'' then emit RBrace (json_lex R cs)
      else if c = CHR ''['' then emit LBrack (json_lex R cs)
      else if c = CHR '']'' then emit RBrack (json_lex R cs)
      else if c = CHR '','' then emit Comma (json_lex R cs)
      else if c = CHR '':'' then emit Colon (json_lex R cs)
      else if starts_with ''null'' (c # cs) then emit (Atom VNone) (json_lex R (drop 3 cs))
      else if starts_with ''true'' (c # cs) then emit (Atom (VBool True)) (json_lex R (drop 3 cs))
      else if starts_with ''false'' (c # cs) then emit (Atom (VBool False)) (json_lex R (drop 4 cs))
      else
        (case scan_number (c # cs) of
           Some (parts, rest) \<Rightarrow> emit (Atom (number_value R parts)) (json_lex R rest)
         | None \<Rightarrow>
             if starts_with ''NaN'' (c # cs)
             then emit (Atom (VFloat (float_of_str R ''NaN''))) (json_lex R (drop 2 cs))
             else if starts_with ''Infinity'' (c # cs)
             then emit (Atom (VFloat (float_of_str R ''Infinity''))) (json_lex R (drop 7 cs))
             else if starts_with ''-Infinity'' (c # cs)
             then emit (Atom (VFloat (float_of_str R ''-Infinity''))) (json_lex R (drop 8 cs))
             else None))"
  by pat_completeness auto
termination
  by (relation "measure (\<lambda>(R, s). length s)")
     (auto dest: scan_string_shorter scan_number_shorter)

declare json_lex.simps [simp del]

text \<open>
  The grammar, as a machine over the tokens. The stack holds the containers that are
  open: a list with its elements so far, an object with its pairs so far, or an object
  with the key whose value is being read. A Python \<open>dict\<close> keeps one value per key, the
  last, at the key's first position: \<open>AList.update\<close>.
\<close>

datatype 'f frame =
    FList "'f pyval list"
  | FDict "(string \<times> 'f pyval) list"
  | FEntry "(string \<times> 'f pyval) list" string

datatype 'f pstate = PValue | PFirst | PKeyFirst | PKey | PColon string | PNext | PDone "'f pyval"

fun complete :: "'f pyval \<Rightarrow> 'f frame list \<Rightarrow> ('f pstate \<times> 'f frame list) option" where
  "complete v [] = Some (PDone v, [])"
| "complete v (FList es # st) = Some (PNext, FList (es @ [v]) # st)"
| "complete v (FEntry kvs k # st) = Some (PNext, FDict (AList.update k v kvs) # st)"
| "complete v (FDict kvs # st) = None"

fun value_token :: "'f token \<Rightarrow> 'f frame list \<Rightarrow> ('f pstate \<times> 'f frame list) option" where
  "value_token (Atom v) st = complete v st"
| "value_token (Str s) st = complete (VStr s) st"
| "value_token LBrack st = Some (PFirst, FList [] # st)"
| "value_token LBrace st = Some (PKeyFirst, FDict [] # st)"
| "value_token t st = None"

fun close_list :: "'f frame list \<Rightarrow> ('f pstate \<times> 'f frame list) option" where
  "close_list (FList es # st) = complete (VList es) st"
| "close_list st = None"

fun close_dict :: "'f frame list \<Rightarrow> ('f pstate \<times> 'f frame list) option" where
  "close_dict (FDict kvs # st) = complete (VDict kvs) st"
| "close_dict st = None"

fun open_entry :: "string \<Rightarrow> 'f frame list \<Rightarrow> ('f pstate \<times> 'f frame list) option" where
  "open_entry k (FDict kvs # st) = Some (PValue, FEntry kvs k # st)"
| "open_entry k st = None"

fun after_comma :: "'f frame list \<Rightarrow> ('f pstate \<times> 'f frame list) option" where
  "after_comma (FList es # st) = Some (PValue, FList es # st)"
| "after_comma (FDict kvs # st) = Some (PKey, FDict kvs # st)"
| "after_comma st = None"

fun step :: "'f pstate \<Rightarrow> 'f frame list \<Rightarrow> 'f token \<Rightarrow> ('f pstate \<times> 'f frame list) option" where
  "step PValue st t = value_token t st"
| "step PFirst st t = (if t = RBrack then close_list st else value_token t st)"
| "step PKeyFirst st t =
     (case t of RBrace \<Rightarrow> close_dict st | Str k \<Rightarrow> Some (PColon k, st) | _ \<Rightarrow> None)"
| "step PKey st t = (case t of Str k \<Rightarrow> Some (PColon k, st) | _ \<Rightarrow> None)"
| "step (PColon k) st t = (if t = Colon then open_entry k st else None)"
| "step PNext st t =
     (case t of
        Comma \<Rightarrow> after_comma st
      | RBrack \<Rightarrow> close_list st
      | RBrace \<Rightarrow> close_dict st
      | _ \<Rightarrow> None)"
| "step (PDone v) st t = None"

fun run :: "'f pstate \<times> 'f frame list \<Rightarrow> 'f token list \<Rightarrow> ('f pstate \<times> 'f frame list) option" where
  "run s [] = Some s"
| "run s (t # ts) = (case step (fst s) (snd s) t of None \<Rightarrow> None | Some s' \<Rightarrow> run s' ts)"

definition parse :: "'f token list \<Rightarrow> exn + 'f pyval" where
  "parse ts =
     (case run (PValue, []) ts of
        Some (PDone v, st) \<Rightarrow> Inr v
      | _ \<Rightarrow> Inl JSONDecodeError)"

definition json_loads :: "'f runtime \<Rightarrow> string \<Rightarrow> exn + 'f pyval" where
  "json_loads R s =
     (case json_lex R s of
        None \<Rightarrow> Inl JSONDecodeError
      | Some ts \<Rightarrow> parse ts)"

section \<open>\<^verbatim>\<open>get_receipt_results\<close> (lines 62 to 83)\<close>

text \<open>
  The table client is outside the repository: \<open>from_connection_string\<close> gives the client
  or raises, and the client's \<^verbatim>\<open>get_entity(partition_key, row_key)\<close> gives the entity (a
  \<open>dict\<close>) or raises, \<^verbatim>\<open>ResourceNotFoundError\<close> where the table has no such row.
\<close>

type_synonym 'f entity = "(string \<times> 'f pyval) list"

type_synonym 'f table_client = "string \<Rightarrow> string \<Rightarrow> exn + 'f entity"

text \<open>Lines 74 and 75: decode \<^verbatim>\<open>entity['items']\<close> in place when it is a \<^verbatim>\<open>str\<close>.\<close>

definition decode_items :: "'f runtime \<Rightarrow> 'f entity \<Rightarrow> exn + 'f entity" where
  "decode_items R entity =
     (case map_of entity ''items'' of
        Some (VStr s) \<Rightarrow>
          attempt (json_loads R s) (\<lambda>v. Inr (AList.update ''items'' v entity))
      | _ \<Rightarrow> Inr entity)"

definition get_receipt_results_try ::
  "'f runtime \<Rightarrow> exn + 'f table_client \<Rightarrow> string \<Rightarrow> exn + http_response" where
  "get_receipt_results_try R from_connection_string receipt_id =
     attempt from_connection_string (\<lambda>table_client.
     attempt (table_client ''receipt'' receipt_id) (\<lambda>entity.
     attempt (decode_items R entity) (\<lambda>entity'.
     attempt (json_dumps R True (VDict entity')) (\<lambda>encoded.
       Inr \<lparr>status_code = 200, body = encoded\<rparr>))))"

definition get_receipt_results ::
  "'f runtime \<Rightarrow> exn + 'f table_client \<Rightarrow> (string \<rightharpoonup> string) \<Rightarrow> http_response" where
  "get_receipt_results R from_connection_string route_params =
     (case route_params ''blobName'' of
        None \<Rightarrow> \<lparr>status_code = 400, body = ''Please provide a blobName.''\<rparr>
      | Some blob_name \<Rightarrow>
          if blob_name = [] then \<lparr>status_code = 400, body = ''Please provide a blobName.''\<rparr>
          else
            let receipt_id = reader_receipt_id blob_name in
            (case get_receipt_results_try R from_connection_string receipt_id of
               Inr response \<Rightarrow> response
             | Inl e \<Rightarrow>
                 if e = ResourceNotFoundError
                 then \<lparr>status_code = 404, body = ''Not found.''\<rparr>
                 else \<lparr>status_code = 500, body = ''Error fetching results.''\<rparr>))"

section \<open>The results table\<close>

text \<open>
  The table holds at most one entity per (partition key, row key). The output binding
  of \<^verbatim>\<open>AnalyzeReceipt\<close> reads the JSON text the function left in \<^verbatim>\<open>tableOutput\<close> and stores
  the entity under its \<^verbatim>\<open>PartitionKey\<close> and \<^verbatim>\<open>RowKey\<close>; with nothing set it stores nothing.
  A later write to the same keys replaces the row (section 5 of the specification).
\<close>

type_synonym 'f table = "string \<times> string \<rightharpoonup> 'f entity"

definition table_get_entity :: "'f table \<Rightarrow> 'f table_client" where
  "table_get_entity T partition_key row_key =
     (case T (partition_key, row_key) of
        None \<Rightarrow> Inl ResourceNotFoundError
      | Some entity \<Rightarrow> Inr entity)"

definition table_output :: "'f runtime \<Rightarrow> string option \<Rightarrow> 'f table \<Rightarrow> 'f table" where
  "table_output R out T =
     (case out of
        None \<Rightarrow> T
      | Some encoded \<Rightarrow>
          (case json_loads R encoded of
             Inr (VDict entity) \<Rightarrow>
               (case (map_of entity ''PartitionKey'', map_of entity ''RowKey'') of
                  (Some (VStr pk), Some (VStr rk)) \<Rightarrow> T((pk, rk) \<mapsto> entity)
                | _ \<Rightarrow> T)
           | _ \<Rightarrow> T))"

text \<open>One trigger delivery: run the function, then let the binding store what it set.\<close>

definition process_blob :: "'f runtime \<Rightarrow> 'f services \<Rightarrow> string \<Rightarrow> 'f table \<Rightarrow> 'f table" where
  "process_blob R S name T =
     (case AnalyzeReceipt R S name of
        Inr out \<Rightarrow> table_output R out T
      | Inl e \<Rightarrow> T)"

section \<open>A concrete runtime: decimal numbers with two places\<close>

text \<open>
  For running the model on examples: the float \<open>n\<close> of this runtime is the number
  \<open>n / 100\<close>. Its text is Python's for such a number (\<^verbatim>\<open>15.5\<close>, \<^verbatim>\<open>10.0\<close>, \<^verbatim>\<open>-0.25\<close>), and
  rounding to two places or more changes nothing.
\<close>

definition cents_repr :: "int \<Rightarrow> string" where
  "cents_repr x =
     (let a = nat \<bar>x\<bar>; whole = a div 100; frac = a mod 100
      in (if x < 0 then ''-'' else []) @ show_nat whole @ ''.'' @
         (if frac mod 10 = 0 then [digit_char (frac div 10)]
          else [digit_char (frac div 10), digit_char (frac mod 10)]))"

definition cents_of_str :: "string \<Rightarrow> int" where
  "cents_of_str s =
     (let body = snd (scan_sign s);
          whole = takeWhile is_digit body;
          frac = take 2 (takeWhile is_digit (drop 1 (dropWhile is_digit body)) @ ''00'');
          a = int (parse_nat whole * 100 + parse_nat frac)
      in if fst (scan_sign s) = [] then a else - a)"

definition cents_round :: "int \<Rightarrow> int \<Rightarrow> int" where
  "cents_round x ndigits =
     (if 2 \<le> ndigits then x
      else
        (let q = 10 ^ nat (2 - ndigits); d = x div q; r = x mod q
         in if 2 * r < q \<or> (2 * r = q \<and> even d) then d * q else (d + 1) * q))"

definition cents_runtime :: "int runtime" where
  "cents_runtime =
     \<lparr>float_add = (\<lambda>x y. x + y),
      float_of_int = (\<lambda>i. Some (100 * i)),
      float_round = cents_round,
      float_is_zero = (\<lambda>x. x = 0),
      float_repr = cents_repr,
      float_of_str = cents_of_str\<rparr>"

text \<open>A service environment in which every call succeeds and the analysis returns \<open>docs\<close>.\<close>

definition ok_services :: "'f analyzed_document list option \<Rightarrow> 'f services" where
  "ok_services docs =
     \<lparr>doc_analysis_client = Inr (),
      blob_service_client = Inr \<lparr>account_name = ''acct'', account_key = Inr ''key''\<rparr>,
      generate_blob_sas = (\<lambda>request. Inr ''sig''),
      begin_analyze_document_from_url = (\<lambda>model url. Inr \<lparr>documents = docs\<rparr>),
      utcnow = 0,
      uuid4 = ''0f8fad5b-d9cb-469f-a165-70867728950e''\<rparr>"

text \<open>The receipt of the specification's scenario: two items, 10.00 and 5.50, tax 1.00, total 16.50.\<close>

definition example_receipt :: "int pyval" where
  "example_receipt =
     VDict [(''Items'', DocumentField (VList
              [DocumentField (VDict [(''Description'', DocumentField (VStr ''tea'')),
                                     (''TotalPrice'', DocumentField (VFloat 1000))]),
               DocumentField (VDict [(''Description'', DocumentField (VStr ''cake'')),
                                     (''TotalPrice'', DocumentField (VFloat 550))])])),
            (''TotalTax'', DocumentField (VFloat 100)),
            (''Total'', DocumentField (VFloat 1650))]"

text \<open>A receipt whose one item has no description, and whose tax is \<^verbatim>\<open>0.0\<close>.\<close>

definition null_description_receipt :: "int pyval" where
  "null_description_receipt =
     VDict [(''Items'', DocumentField (VList
              [DocumentField (VDict [(''Description'', DocumentField VNone),
                                     (''TotalPrice'', DocumentField (VFloat 250))])])),
            (''TotalTax'', DocumentField (VFloat 0)),
            (''Total'', DocumentField (VFloat 250))]"

text \<open>The same environment, but the analysis call raises.\<close>

definition failing_services :: "int services" where
  "failing_services =
     (ok_services (Some [\<lparr>doc_fields = example_receipt\<rparr>]))
       \<lparr>begin_analyze_document_from_url := (\<lambda>model url. Inl (ServiceError ''timeout''))\<rparr>"

section \<open>What the theorems ask of a runtime, and of a value\<close>

text \<open>
  \<open>float_text s\<close>: \<open>s\<close> is a JSON number with a fraction or an exponent, or one of the three
  constants \<^verbatim>\<open>json\<close> writes for a float that is not finite. \<open>float_codec R\<close>: the text of
  every float is such a text, and \<^verbatim>\<open>float()\<close> reads it back as the same float (as
  \<^verbatim>\<open>float.__repr__\<close> promises). Equality of floats is identity here, so a NaN counts as
  equal to itself.
\<close>

definition float_text :: "string \<Rightarrow> bool" where
  "float_text s =
     (s = ''NaN'' \<or> s = ''Infinity'' \<or> s = ''-Infinity'' \<or>
      (case scan_number s of
         None \<Rightarrow> False
       | Some ((integer, frac, exp), rest) \<Rightarrow> rest = [] \<and> (frac \<noteq> [] \<or> exp \<noteq> [])))"

definition float_codec :: "'f runtime \<Rightarrow> bool" where
  "float_codec R =
     (\<forall>f. float_text (float_repr R f) \<and> float_of_str R (float_repr R f) = f)"

text \<open>A Python \<open>dict\<close> has each key once: \<open>distinct_keys\<close> says so of every \<open>dict\<close> in a value.\<close>

fun distinct_keys :: "'f pyval \<Rightarrow> bool"
  and distinct_keys_elems :: "'f pyval list \<Rightarrow> bool"
  and distinct_keys_pairs :: "(string \<times> 'f pyval) list \<Rightarrow> bool"
where
  "distinct_keys (VList xs) = distinct_keys_elems xs"
| "distinct_keys (VDict kvs) = (distinct (map fst kvs) \<and> distinct_keys_pairs kvs)"
| "distinct_keys (VObject s None) = True"
| "distinct_keys (VObject s (Some v)) = distinct_keys v"
| "distinct_keys VNone = True"
| "distinct_keys (VBool b) = True"
| "distinct_keys (VInt i) = True"
| "distinct_keys (VFloat f) = True"
| "distinct_keys (VStr s) = True"
| "distinct_keys_elems [] = True"
| "distinct_keys_elems (x # xs) = (distinct_keys x \<and> distinct_keys_elems xs)"
| "distinct_keys_pairs [] = True"
| "distinct_keys_pairs (kv # kvs) = (distinct_keys (snd kv) \<and> distinct_keys_pairs kvs)"

text \<open>
  The fields of the first recognized document, when the analysis returned one; and the
  analysis being a Python value (every \<open>dict\<close> in it has each key once).
\<close>

definition analyzed_fields :: "'f services \<Rightarrow> string \<Rightarrow> 'f pyval option" where
  "analyzed_fields S name =
     (case request_analysis S name of
        Inl e \<Rightarrow> None
      | Inr result \<Rightarrow>
          (case documents result of
             Some (document # others) \<Rightarrow> Some (doc_fields document)
           | _ \<Rightarrow> None))"

text \<open>The tokens of the text \<^verbatim>\<open>json.dumps\<close> writes for a value, and the end of a number.\<close>

fun tokens :: "'f pyval \<Rightarrow> 'f token list"
  and tokens_elems :: "'f pyval list \<Rightarrow> 'f token list"
  and tokens_pairs :: "(string \<times> 'f pyval) list \<Rightarrow> 'f token list"
where
  "tokens (VList xs) = LBrack # tokens_elems xs @ [RBrack]"
| "tokens (VDict kvs) = LBrace # tokens_pairs kvs @ [RBrace]"
| "tokens (VStr s) = [Str s]"
| "tokens (VObject s a) = [Str s]"
| "tokens VNone = [Atom VNone]"
| "tokens (VBool b) = [Atom (VBool b)]"
| "tokens (VInt i) = [Atom (VInt i)]"
| "tokens (VFloat f) = [Atom (VFloat f)]"
| "tokens_elems [] = []"
| "tokens_elems (x # xs) = tokens x @ (if xs = [] then [] else Comma # tokens_elems xs)"
| "tokens_pairs [] = []"
| "tokens_pairs (kv # kvs) =
     Str (fst kv) # Colon # tokens (snd kv) @ (if kvs = [] then [] else Comma # tokens_pairs kvs)"

definition delim :: "string \<Rightarrow> bool" where
  "delim rest =
     (case rest of [] \<Rightarrow> True | c # cs \<Rightarrow> c = CHR '','' \<or> c = CHR '']'' \<or> c = CHR ''}'')"

definition emits :: "'a list \<Rightarrow> 'a list option \<Rightarrow> 'a list option" where
  "emits ts r = (case r of None \<Rightarrow> None | Some us \<Rightarrow> Some (ts @ us))"

section \<open>Properties of the path helpers\<close>

lemma rfind_from_append:
  "rfind_from (xs @ ys) c i r = rfind_from ys c (i + length xs) (rfind_from xs c i r)"
  by (induction xs arbitrary: i r) auto

lemma rfind_from_absent: "c \<notin> set xs \<Longrightarrow> rfind_from xs c i r = r"
  by (induction xs arbitrary: i r) auto

lemma rfind_absent: "c \<notin> set p \<Longrightarrow> rfind p c = - 1"
  by (simp add: rfind_def rfind_from_absent)

lemma rfind_last: "c \<notin> set ys \<Longrightarrow> rfind (xs @ c # ys) c = int (length xs)"
  by (simp add: rfind_def rfind_from_append rfind_from_absent)

lemma rfind_cases:
  obtains (absent) "c \<notin> set p" "rfind p c = - 1"
  | (present) xs ys where "p = xs @ c # ys" "c \<notin> set ys" "rfind p c = int (length xs)"
proof (cases "c \<in> set p")
  case True
  then obtain xs ys where "p = xs @ c # ys" "c \<notin> set ys"
    by (meson split_list_last)
  then show ?thesis using present rfind_last by blast
next
  case False
  then show ?thesis using absent rfind_absent by blast
qed

lemma splitext_loop_char:
  "splitext_loop p i d =
     (if \<exists>j. i \<le> j \<and> j < d \<and> take 1 (drop j p) \<noteq> ''.'' then Some (take d p, drop d p) else None)"
proof (induction p i d rule: splitext_loop.induct)
  case (1 p i d)
  show ?case
  proof (cases "i < d")
    case False
    then show ?thesis by (subst splitext_loop.simps) auto
  next
    case True
    show ?thesis
    proof (cases "take 1 (drop i p) \<noteq> ''.''")
      case t: True
      with True show ?thesis by (subst splitext_loop.simps) auto
    next
      case f: False
      have "(\<exists>j. i \<le> j \<and> j < d \<and> take 1 (drop j p) \<noteq> ''.'') =
            (\<exists>j. i + 1 \<le> j \<and> j < d \<and> take 1 (drop j p) \<noteq> ''.'')"
        using f by (metis Suc_eq_plus1 Suc_leI le_neq_implies_less nat_le_linear not_less_eq_eq order.trans le_add1)
      with True f "1.IH" show ?thesis by (subst splitext_loop.simps) simp
    qed
  qed
qed

lemma splitext_concat: "fst (splitext p) @ snd (splitext p) = p"
  by (auto simp: splitext_def Let_def splitext_loop_char)

lemma take1_drop: "j < length p \<Longrightarrow> (take 1 (drop j p) \<noteq> [c]) = (p ! j \<noteq> c)"
  by (cases "drop j p") (auto simp: hd_drop_conv_nth dest: arg_cong [where f = hd])

lemma last_split_on_absent: "c \<notin> set s \<Longrightarrow> split_on c s = [s]"
  by (induction s) auto

lemma split_on_nonempty: "split_on c s \<noteq> []"
  by (induction s) (auto split: list.splits)

lemma split_on_append:
  "c \<notin> set ys \<Longrightarrow> \<exists>pre. pre \<noteq> [] \<and> split_on c (xs @ c # ys) = pre @ [ys]"
proof (induction xs)
  case Nil
  then have "split_on c ([] @ c # ys) = [[]] @ [ys]" by (simp add: last_split_on_absent)
  then show ?case by blast
next
  case (Cons a xs)
  then obtain pre where pre: "pre \<noteq> []" "split_on c (xs @ c # ys) = pre @ [ys]" by blast
  then obtain w pre' where w: "pre = w # pre'" by (cases pre) auto
  show ?case
  proof (cases "a = c")
    case True
    then have "split_on c ((a # xs) @ c # ys) = ([] # pre) @ [ys]" using pre by simp
    then show ?thesis by blast
  next
    case False
    then have "split_on c ((a # xs) @ c # ys) = ((a # w) # pre') @ [ys]" using pre w by simp
    then show ?thesis by blast
  qed
qed

lemma last_split_on_append:
  "c \<notin> set ys \<Longrightarrow> last (split_on c (xs @ c # ys)) = ys"
  using split_on_append [of c ys xs] by auto

lemma blob_basename_no_slash: "CHR ''/'' \<notin> set (blob_basename name)"
proof (cases "CHR ''/'' \<in> set name")
  case True
  then obtain xs ys where "name = xs @ CHR ''/'' # ys" "CHR ''/'' \<notin> set ys"
    by (meson split_list_last)
  then show ?thesis by (simp add: blob_basename_def last_split_on_append)
next
  case False
  then show ?thesis by (simp add: blob_basename_def last_split_on_absent)
qed

lemma blob_basename_path: "CHR ''/'' \<notin> set base \<Longrightarrow> blob_basename (dir @ CHR ''/'' # base) = base"
  by (simp add: blob_basename_def last_split_on_append)

lemma blob_basename_drop:
  "blob_basename s = drop (nat (rfind s CHR ''/'' + 1)) s"
proof (cases s "CHR ''/''" rule: rfind_cases)
  case absent
  then show ?thesis by (simp add: blob_basename_def last_split_on_absent)
next
  case (present xs ys)
  have "nat (int (length xs) + 1) = Suc (length xs)" by simp
  with present show ?thesis by (simp add: blob_basename_def last_split_on_append)
qed

lemma in_set_drop_nth: "(x \<in> set (drop n l)) = (\<exists>i. n \<le> i \<and> i < length l \<and> l ! i = x)"
proof
  assume "x \<in> set (drop n l)"
  then obtain i where "i < length (drop n l)" "drop n l ! i = x"
    by (auto simp: in_set_conv_nth)
  then have "n \<le> n + i \<and> n + i < length l \<and> l ! (n + i) = x" by auto
  then show "\<exists>i. n \<le> i \<and> i < length l \<and> l ! i = x" by blast
next
  assume "\<exists>i. n \<le> i \<and> i < length l \<and> l ! i = x"
  then obtain i where i: "n \<le> i" "i < length l" "l ! i = x" by blast
  then have "i - n < length (drop n l)" "drop n l ! (i - n) = x" by auto
  then show "x \<in> set (drop n l)" by (metis nth_mem)
qed

lemma rfind_bounds: "- 1 \<le> rfind p c \<and> rfind p c < int (length p)"
  by (cases p c rule: rfind_cases) auto

lemma rfind_append_absent: "c \<notin> set ys \<Longrightarrow> rfind (xs @ ys) c = rfind xs c"
  by (simp add: rfind_def rfind_from_append rfind_from_absent)

lemma splitext_ext:
  assumes "CHR ''.'' \<notin> set ext" and "CHR ''/'' \<notin> set ext"
  shows "splitext (stem @ CHR ''.'' # ext) =
           (if \<exists>c\<in>set (blob_basename stem). c \<noteq> CHR ''.'' then (stem, CHR ''.'' # ext)
            else (stem @ CHR ''.'' # ext, []))"
proof -
  let ?p = "stem @ CHR ''.'' # ext"
  let ?k = "nat (rfind stem CHR ''/'' + 1)"
  have d: "rfind ?p CHR ''.'' = int (length stem)" using assms(1) by (rule rfind_last)
  have s: "rfind ?p CHR ''/'' = rfind stem CHR ''/''"
    using assms(2) by (simp add: rfind_append_absent)
  have lt: "rfind stem CHR ''/'' < int (length stem)" using rfind_bounds by blast
  have t: "(take 1 (drop j ?p) \<noteq> ''.'') = (stem ! j \<noteq> CHR ''.'')" if "j < length stem" for j
  proof -
    have "(take 1 (drop j ?p) \<noteq> ''.'') = (?p ! j \<noteq> CHR ''.'')"
      by (rule take1_drop) (use that in simp)
    moreover have "?p ! j = stem ! j" using that by (simp add: nth_append)
    ultimately show ?thesis by simp
  qed
  have "(\<exists>j. ?k \<le> j \<and> j < length stem \<and> take 1 (drop j ?p) \<noteq> ''.'') =
        (\<exists>j. ?k \<le> j \<and> j < length stem \<and> stem ! j \<noteq> CHR ''.'')"
    using t by blast
  also have "\<dots> = (\<exists>c\<in>set (blob_basename stem). c \<noteq> CHR ''.'')"
    unfolding blob_basename_drop in_set_drop_nth Bex_def by blast
  finally show ?thesis
    using lt by (simp add: splitext_def d s splitext_loop_char)
qed

lemma splitext_no_ext:
  assumes "CHR ''.'' \<notin> set (blob_basename p)"
  shows "splitext p = (p, [])"
proof (cases p "CHR ''.''" rule: rfind_cases)
  case absent
  then show ?thesis using rfind_bounds [of p "CHR ''/''"] by (simp add: splitext_def)
next
  case (present xs ys)
  have "\<not> nat (rfind p CHR ''/'' + 1) \<le> length xs"
  proof
    assume "nat (rfind p CHR ''/'' + 1) \<le> length xs"
    then have "CHR ''.'' \<in> set (drop (nat (rfind p CHR ''/'' + 1)) p)"
      using present(1) unfolding in_set_drop_nth by (auto intro!: exI [of _ "length xs"])
    with assms show False by (simp add: blob_basename_drop)
  qed
  then have "\<not> rfind p CHR ''.'' > rfind p CHR ''/''" using present(3) by simp
  then show ?thesis by (simp add: splitext_def)
qed

section \<open>Exceptions of the handlers\<close>

lemma attempt_Inl [simp]: "attempt (Inl e) f = Inl e"
  by (simp add: attempt_def)

lemma attempt_Inr [simp]: "attempt (Inr a) f = f a"
  by (simp add: attempt_def)

lemma attempt_eq_Inr: "(attempt m f = Inr b) = (\<exists>a. m = Inr a \<and> f a = Inr b)"
  by (cases m) auto

lemma attempt_eq_Inl: "(attempt m f = Inl e) = (m = Inl e \<or> (\<exists>a. m = Inr a \<and> f a = Inl e))"
  by (cases m) auto

lemma json_dumps_error:
  "json_dumps R dflt v = Inl e \<Longrightarrow> e = TypeError"
  "dumps_elems R dflt vs = Inl e \<Longrightarrow> e = TypeError"
  "dumps_pairs R dflt kvs = Inl e \<Longrightarrow> e = TypeError"
  by (induction R dflt v and R dflt vs and R dflt kvs
      rule: json_dumps_dumps_elems_dumps_pairs.induct)
     (auto simp: attempt_eq_Inl split: if_splits)

lemma json_dumps_default:
  "\<exists>s. json_dumps R True v = Inr s"
  "\<exists>ss. dumps_elems R True vs = Inr ss"
  "\<exists>ss. dumps_pairs R True kvs = Inr ss"
  by (induction R "True" v and R "True" vs and R "True" kvs
      rule: json_dumps_dumps_elems_dumps_pairs.induct) auto

lemma json_loads_error: "json_loads R s = Inl e \<Longrightarrow> e = JSONDecodeError"
  by (auto simp: json_loads_def parse_def
      split: option.splits prod.splits pstate.splits list.splits)

lemma decode_items_error: "decode_items R entity = Inl e \<Longrightarrow> e = JSONDecodeError"
  by (auto simp: decode_items_def attempt_eq_Inl
      split: option.splits pyval.splits dest: json_loads_error)

lemma reader_found:
  assumes "client ''receipt'' receipt_id = Inr entity"
  shows "(\<exists>entity' encoded. decode_items R entity = Inr entity'
            \<and> json_dumps R True (VDict entity') = Inr encoded
            \<and> get_receipt_results_try R (Inr client) receipt_id
                = Inr \<lparr>status_code = 200, body = encoded\<rparr>)
         \<or> (decode_items R entity = Inl JSONDecodeError
            \<and> get_receipt_results_try R (Inr client) receipt_id = Inl JSONDecodeError)"
proof (cases "decode_items R entity")
  case (Inl e)
  then have "e = JSONDecodeError" by (rule decode_items_error)
  with Inl assms show ?thesis by (simp add: get_receipt_results_try_def)
next
  case (Inr entity')
  obtain encoded where "json_dumps R True (VDict entity') = Inr encoded"
    using json_dumps_default(1) by blast
  with Inr assms show ?thesis by (simp add: get_receipt_results_try_def)
qed

lemma reader_status_404:
  assumes "blob_name \<noteq> []"
  shows "(status_code (get_receipt_results R (Inr (table_get_entity T)) [''blobName'' \<mapsto> blob_name]) = 404)
           = (T (''receipt'', reader_receipt_id blob_name) = None)"
proof (cases "T (''receipt'', reader_receipt_id blob_name)")
  case None
  then show ?thesis
    using assms
    by (simp add: get_receipt_results_def get_receipt_results_try_def table_get_entity_def)
next
  case (Some entity)
  then have "table_get_entity T ''receipt'' (reader_receipt_id blob_name) = Inr entity"
    by (simp add: table_get_entity_def)
  from reader_found [of "table_get_entity T" "reader_receipt_id blob_name" entity R, OF this] Some assms
  show ?thesis
    by (auto simp: get_receipt_results_def)
qed

text \<open>
  Claim C9, as amended. For a non-empty \<^verbatim>\<open>blobName\<close> the row looked up is
  \<^verbatim>\<open>os.path.splitext(blobName)[0]\<close>: the reader answers 404 exactly when the table has no row
  under that key. The key is the whole name when the last path component has no dot; and
  when the name ends in a dot followed by an extension, the key is the name cut at that
  dot if a character other than a dot stands before it in the last component, and the
  whole name otherwise (a name such as \<^verbatim>\<open>.jpg\<close> is kept whole).
\<close>

theorem reader_row_key:
  assumes "blob_name \<noteq> []"
  shows "(status_code (get_receipt_results R (Inr (table_get_entity T)) [''blobName'' \<mapsto> blob_name]) = 404)
           = (T (''receipt'', reader_receipt_id blob_name) = None)
       \<and> reader_receipt_id blob_name = fst (splitext blob_name)
       \<and> (CHR ''.'' \<notin> set (blob_basename blob_name) \<longrightarrow> reader_receipt_id blob_name = blob_name)
       \<and> (\<forall>stem ext. blob_name = stem @ CHR ''.'' # ext \<and> CHR ''.'' \<notin> set ext \<and> CHR ''/'' \<notin> set ext \<longrightarrow>
            reader_receipt_id blob_name =
              (if \<exists>c\<in>set (blob_basename stem). c \<noteq> CHR ''.'' then stem else blob_name))"
  using reader_status_404 [OF assms]
  by (auto simp: reader_receipt_id_def splitext_ext splitext_no_ext)

theorem reader_row_key_witness:
  "(status_code (get_receipt_results cents_runtime
       (Inr (table_get_entity [(''receipt'', ''abc123'') \<mapsto> [(''total'', VInt 3)]]))
       [''blobName'' \<mapsto> ''abc123.jpg'']) \<noteq> 404)
   \<and> reader_receipt_id ''abc123.jpg'' = ''abc123''
   \<and> reader_receipt_id ''.jpg'' = ''.jpg''"
proof -
  have ne: "''abc123.jpg'' \<noteq> []" by simp
  have "reader_receipt_id ''abc123.jpg'' = ''abc123''" by code_simp
  moreover have "reader_receipt_id ''.jpg'' = ''.jpg''" by code_simp
  ultimately show ?thesis
    using reader_row_key [OF ne, of cents_runtime "[(''receipt'', ''abc123'') \<mapsto> [(''total'', VInt 3)]]"]
    by simp
qed

text \<open>
  Claim C9 as stated fails at \<^verbatim>\<open>.jpg\<close>: the name contains a dot, cutting it at its last dot
  would give the empty key, and the key looked up is \<^verbatim>\<open>.jpg\<close>.
\<close>

theorem reader_row_key_counterexample:
  "CHR ''.'' \<in> set ''.jpg''
   \<and> reader_receipt_id ''.jpg'' = ''.jpg''
   \<and> take (nat (rfind ''.jpg'' CHR ''.'')) ''.jpg'' = []"
  by code_simp

section \<open>Numbers written and read back\<close>

lemma char_of_48: "char_of (48 :: nat) = CHR ''0''"
  by code_simp

lemma of_char_digit_char: "d < 10 \<Longrightarrow> (of_char (digit_char d) :: nat) = 48 + d"
  by (simp add: digit_char_def)

lemma is_digit_digit_char: "d < 10 \<Longrightarrow> is_digit (digit_char d)"
  by (simp add: is_digit_def of_char_digit_char)

lemma digit_val_digit_char: "d < 10 \<Longrightarrow> digit_val (digit_char d) = d"
  by (simp add: digit_val_def of_char_digit_char)

lemma digit_char_zero: "d < 10 \<Longrightarrow> (digit_char d = CHR ''0'') = (d = 0)"
proof
  assume "d < 10" "digit_char d = CHR ''0''"
  then have "(of_char (digit_char d) :: nat) = of_char (CHR ''0'')" by simp
  then show "d = 0" using \<open>d < 10\<close> by (simp add: of_char_digit_char)
next
  assume "d = 0" then show "digit_char d = CHR ''0''" by (simp add: digit_char_def char_of_48)
qed

lemma show_nat_digits: "list_all is_digit (show_nat n)"
proof (induction n rule: show_nat.induct)
  case (1 n)
  show ?case
  proof (cases "n < 10")
    case True
    then show ?thesis by (subst show_nat.simps) (simp add: is_digit_digit_char)
  next
    case False
    then show ?thesis using 1 by (subst show_nat.simps) (simp add: is_digit_digit_char)
  qed
qed

lemma show_nat_nonempty: "show_nat n \<noteq> []"
  by (subst show_nat.simps) simp

lemma show_nat_hd: "(hd (show_nat n) = CHR ''0'') = (n = 0)"
proof (induction n rule: show_nat.induct)
  case (1 n)
  show ?case
  proof (cases "n < 10")
    case True
    then show ?thesis by (subst show_nat.simps) (simp add: digit_char_zero)
  next
    case False
    then have "n div 10 \<noteq> 0" by simp
    with False 1 show ?thesis
      by (subst show_nat.simps) (simp add: show_nat_nonempty)
  qed
qed

lemma parse_nat_snoc: "parse_nat (xs @ [c]) = 10 * parse_nat xs + digit_val c"
  by (simp add: parse_nat_def)

lemma parse_nat_show_nat: "parse_nat (show_nat n) = n"
proof (induction n rule: show_nat.induct)
  case (1 n)
  show ?case
  proof (cases "n < 10")
    case True
    then show ?thesis
      by (subst show_nat.simps) (simp add: parse_nat_def digit_val_digit_char)
  next
    case False
    with 1 show ?thesis
      by (subst show_nat.simps) (simp add: parse_nat_snoc digit_val_digit_char)
  qed
qed

lemma not_digit_minus: "\<not> is_digit CHR ''-''"
  by (simp add: is_digit_def)

lemma parse_int_show_int: "parse_int (show_int i) = i"
proof (cases "i < 0")
  case True
  then show ?thesis by (simp add: parse_int_def show_int_def parse_nat_show_nat)
next
  case False
  obtain c cs where cs: "show_nat (nat i) = c # cs"
    using show_nat_nonempty by (cases "show_nat (nat i)") auto
  have "is_digit c" using show_nat_digits [of "nat i"] cs by simp
  then have "c \<noteq> CHR ''-''" using not_digit_minus by auto
  with False cs parse_nat_show_nat [of "nat i"] show ?thesis
    by (simp add: parse_int_def show_int_def)
qed

lemma takeWhile_all: "list_all P xs \<Longrightarrow> takeWhile P xs = xs \<and> dropWhile P xs = []"
  by (induction xs) auto

lemma scan_int_part_digits:
  assumes "list_all is_digit ds" "ds \<noteq> []" "hd ds = CHR ''0'' \<longrightarrow> ds = ''0''"
  shows "scan_int_part ds = Some (ds, [])"
proof -
  obtain c cs where ds: "ds = c # cs" using assms(2) by (cases ds) auto
  then have "list_all is_digit cs" "is_digit c" using assms(1) by auto
  then show ?thesis using ds assms(3) by (auto simp: scan_int_part_def takeWhile_all)
qed

lemma show_nat_zero: "show_nat 0 = ''0''"
  by (subst show_nat.simps) (simp add: digit_char_def char_of_48)

lemma scan_int_part_show_nat: "scan_int_part (show_nat n) = Some (show_nat n, [])"
proof (rule scan_int_part_digits)
  show "list_all is_digit (show_nat n)" by (rule show_nat_digits)
  show "show_nat n \<noteq> []" by (rule show_nat_nonempty)
  show "hd (show_nat n) = CHR ''0'' \<longrightarrow> show_nat n = ''0''"
    by (simp add: show_nat_hd show_nat_zero)
qed

lemma scan_sign_show_int:
  "scan_sign (show_int i) = (if i < 0 then (''-'', show_nat (nat (- i))) else ([], show_nat (nat i)))"
proof (cases "i < 0")
  case True
  then show ?thesis by (simp add: scan_sign_def show_int_def)
next
  case False
  obtain c cs where cs: "show_nat (nat i) = c # cs"
    using show_nat_nonempty by (cases "show_nat (nat i)") auto
  have "is_digit c" using show_nat_digits [of "nat i"] cs by simp
  then have "c \<noteq> CHR ''-''" using not_digit_minus by auto
  with False cs show ?thesis by (simp add: scan_sign_def show_int_def)
qed

lemma scan_number_show_int: "scan_number (show_int i) = Some ((show_int i, [], []), [])"
proof -
  define sg where "sg = (if i < 0 then ''-'' else [])"
  define body where "body = show_nat (nat \<bar>i\<bar>)"
  have ss: "scan_sign (show_int i) = (sg, body)"
    using scan_sign_show_int [of i] by (cases "i < 0") (simp_all add: sg_def body_def)
  have ip: "scan_int_part body = Some (body, [])"
    by (simp add: body_def scan_int_part_show_nat)
  have eq: "show_int i = sg @ body"
    by (cases "i < 0") (simp_all add: show_int_def sg_def body_def)
  have "scan_number (show_int i) = Some ((sg @ body, [], []), [])"
    unfolding scan_number_def ss by (simp add: ip scan_frac_def scan_exp_def)
  then show ?thesis unfolding eq [symmetric] .
qed

section \<open>Scanning a number in front of a delimiter\<close>

lemma delim_hd: "delim rest \<Longrightarrow> rest = [] \<or> (\<exists>c cs. rest = c # cs \<and> (c = CHR '','' \<or> c = CHR '']'' \<or> c = CHR ''}''))"
  by (cases rest) (auto simp: delim_def)

lemma delim_not_digit: "delim rest \<Longrightarrow> takeWhile is_digit rest = [] \<and> dropWhile is_digit rest = rest"
  by (cases rest) (auto simp: delim_def is_digit_def)

lemma takeWhile_digits_append:
  "delim rest \<Longrightarrow> takeWhile is_digit (xs @ rest) = takeWhile is_digit xs
     \<and> dropWhile is_digit (xs @ rest) = dropWhile is_digit xs @ rest"
  by (induction xs) (auto simp: delim_not_digit)

lemma scan_sign_append:
  "delim rest \<Longrightarrow> scan_sign (s @ rest) = (fst (scan_sign s), snd (scan_sign s) @ rest)"
  by (cases s; cases rest) (auto simp: scan_sign_def delim_def)

lemma scan_int_part_append:
  "delim rest \<Longrightarrow> scan_int_part (s @ rest) =
     (case scan_int_part s of None \<Rightarrow> None | Some (ip, r) \<Rightarrow> Some (ip, r @ rest))"
  by (cases s; cases rest)
     (auto simp: scan_int_part_def delim_def is_digit_def takeWhile_digits_append)

lemma scan_frac_append:
  "delim rest \<Longrightarrow> scan_frac (s @ rest) = (fst (scan_frac s), snd (scan_frac s) @ rest)"
  by (cases s; cases rest)
     (auto simp: scan_frac_def delim_def takeWhile_digits_append)


lemma scan_exp_append:
  assumes "delim rest"
  shows "scan_exp (s @ rest) = (fst (scan_exp s), snd (scan_exp s) @ rest)"
proof (cases s)
  case Nil
  then show ?thesis using assms by (cases rest) (auto simp: scan_exp_def delim_def)
next
  case (Cons c cs)
  show ?thesis
  proof (cases cs)
    case Nil
    then show ?thesis
      using assms Cons delim_not_digit [OF assms]
      by (cases rest) (auto simp: scan_exp_def delim_def Let_def)
  next
    case (Cons d ds)
    then show ?thesis
      using \<open>s = c # cs\<close> takeWhile_digits_append [OF assms]
      by (auto simp: scan_exp_def Let_def)
  qed
qed

lemma scan_number_append:
  assumes "delim rest"
  shows "scan_number (s @ rest) =
           (case scan_number s of None \<Rightarrow> None | Some (parts, r) \<Rightarrow> Some (parts, r @ rest))"
  unfolding scan_number_def
  by (simp add: scan_sign_append [OF assms] scan_int_part_append [OF assms]
      scan_frac_append [OF assms] scan_exp_append [OF assms]
      split: option.splits prod.splits)

section \<open>Lexing the pieces \<^verbatim>\<open>json.dumps\<close> writes\<close>

lemma emits_Nil [simp]: "emits [] r = r"
  by (simp add: emits_def split: option.splits)

lemma emits_Cons [simp]: "emits (t # ts) r = emit t (emits ts r)"
  by (simp add: emits_def emit_def split: option.splits)

lemma emits_append [simp]: "emits (ts @ us) r = emits ts (emits us r)"
  by (simp add: emits_def split: option.splits)

lemma lex_number:
  assumes "is_digit c \<or> c = CHR ''-''" and "scan_number (c # cs) = Some (parts, rest)"
  shows "json_lex R (c # cs) = emit (Atom (number_value R parts)) (json_lex R rest)"
proof -
  have ne: "c \<noteq> CHR '' ''" "c \<noteq> CHR 0x09" "c \<noteq> CHR 0x0A" "c \<noteq> CHR 0x0D" "c \<noteq> CHR 0x22"
    "c \<noteq> CHR ''{''" "c \<noteq> CHR ''}''" "c \<noteq> CHR ''[''" "c \<noteq> CHR '']''" "c \<noteq> CHR '',''"
    "c \<noteq> CHR '':''" "c \<noteq> CHR ''n''" "c \<noteq> CHR ''t''" "c \<noteq> CHR ''f''"
    using assms(1) by (auto simp: is_digit_def)
  show ?thesis
    by (subst json_lex.simps) (simp add: ne starts_with_def assms(2))
qed

lemma lex_show_int:
  assumes "delim rest"
  shows "json_lex R (show_int i @ rest) = emit (Atom (VInt i)) (json_lex R rest)"
proof -
  obtain c cs where cs: "show_int i = c # cs" and c: "is_digit c \<or> c = CHR ''-''"
  proof (cases "i < 0")
    case True
    then show ?thesis using that by (simp add: show_int_def)
  next
    case False
    obtain d ds where "show_nat (nat i) = d # ds"
      using show_nat_nonempty by (cases "show_nat (nat i)") auto
    moreover from this have "is_digit d" using show_nat_digits [of "nat i"] by simp
    ultimately show ?thesis using that False by (simp add: show_int_def)
  qed
  have "scan_number (show_int i @ rest) = Some ((show_int i, [], []), rest)"
    by (simp add: scan_number_append [OF assms] scan_number_show_int)
  then have "json_lex R (c # cs @ rest) = emit (Atom (number_value R (show_int i, [], []))) (json_lex R rest)"
    using lex_number [where cs = "cs @ rest" and rest = rest and R = R, OF c] cs by simp
  moreover have "number_value R (show_int i, [], []) = VInt i"
    by (simp add: number_value_def parse_int_show_int)
  ultimately show ?thesis by (simp add: cs)
qed

lemma lex_punct:
  "json_lex R (CHR ''{'' # s) = emit LBrace (json_lex R s)"
  "json_lex R (CHR ''}'' # s) = emit RBrace (json_lex R s)"
  "json_lex R (CHR ''['' # s) = emit LBrack (json_lex R s)"
  "json_lex R (CHR '']'' # s) = emit RBrack (json_lex R s)"
  "json_lex R (CHR '','' # s) = emit Comma (json_lex R s)"
  "json_lex R (CHR '':'' # s) = emit Colon (json_lex R s)"
  "json_lex R (CHR '' '' # s) = json_lex R s"
  by (subst json_lex.simps, simp)+

lemma lex_literal:
  "json_lex R (CHR ''n'' # CHR ''u'' # CHR ''l'' # CHR ''l'' # s) = emit (Atom VNone) (json_lex R s)"
  "json_lex R (CHR ''t'' # CHR ''r'' # CHR ''u'' # CHR ''e'' # s) = emit (Atom (VBool True)) (json_lex R s)"
  "json_lex R (CHR ''f'' # CHR ''a'' # CHR ''l'' # CHR ''s'' # CHR ''e'' # s) = emit (Atom (VBool False)) (json_lex R s)"
  by (subst json_lex.simps, simp add: starts_with_def)+


section \<open>Strings written and read back\<close>

lemma hex_val_hex_char: "d < 16 \<Longrightarrow> hex_val (hex_char d) = Some d"
  by (auto simp: hex_val_def hex_char_def Let_def)

lemma hex_val_zero: "hex_val CHR ''0'' = Some 0"
  by (simp add: hex_val_def)

lemma scan_string_plain:
  assumes "c \<noteq> CHR 0x22" "c \<noteq> CHR 0x5C" "32 \<le> (of_char c :: nat)"
  shows "scan_string (c # s) = consed c (scan_string s)"
  using assms by (subst scan_string.simps) simp

lemma scan_string_short:
  assumes "unescape e = Some ch" "e \<noteq> CHR ''u''"
  shows "scan_string (CHR 0x5C # e # s) = consed ch (scan_string s)"
  using assms by (subst scan_string.simps) simp

lemma scan_string_unicode:
  assumes "hex4 [a, b, c, d] = Some n"
  shows "scan_string (CHR 0x5C # CHR ''u'' # a # b # c # d # s) = consed (char_of n) (scan_string s)"
  using assms by (subst scan_string.simps) simp

lemma scan_escape_char: "scan_string (escape_char c @ s) = consed c (scan_string s)"
proof -
  let ?n = "of_char c :: nat"
  let ?special = "c = CHR 0x5C \<or> c = CHR 0x22 \<or> c = CHR 0x08 \<or> c = CHR 0x0C
                  \<or> c = CHR 0x0A \<or> c = CHR 0x0D \<or> c = CHR 0x09"
  have short: ?thesis if ?special
    using that by (auto simp: escape_char_def scan_string_short unescape_def)
  have plain: ?thesis if "\<not> ?special" "32 \<le> ?n \<and> ?n \<le> 126"
  proof -
    have "escape_char c = [c]" using that by (simp add: escape_char_def)
    then show ?thesis using that by (simp add: scan_string_plain)
  qed
  have uni: ?thesis if "\<not> ?special" "\<not> (32 \<le> ?n \<and> ?n \<le> 126)"
  proof -
    have e: "escape_char c = [CHR 0x5C, CHR ''u'', CHR ''0'', CHR ''0'',
                              hex_char (?n div 16), hex_char (?n mod 16)]"
      using that by (simp add: escape_char_def)
    have d: "?n div 16 < 16" "?n mod 16 < 16"
      by (rule less_mult_imp_div_less) simp_all
    have "hex4 [CHR ''0'', CHR ''0'', hex_char (?n div 16), hex_char (?n mod 16)]
            = Some (?n div 16 * 16 + ?n mod 16)"
      by (simp add: hex4_def hex_val_zero hex_val_hex_char d)
    then have "scan_string (escape_char c @ s)
                 = consed (char_of (?n div 16 * 16 + ?n mod 16)) (scan_string s)"
      using e by (simp add: scan_string_unicode)
    moreover have "?n div 16 * 16 + ?n mod 16 = ?n" by simp
    ultimately show ?thesis by simp
  qed
  from short plain uni show ?thesis by blast
qed

lemma scan_string_quote: "scan_string (CHR 0x22 # s) = Some ([], s)"
  by (subst scan_string.simps) simp

lemma scan_string_escaped:
  "scan_string (concat (map escape_char k) @ CHR 0x22 # rest) = Some (k, rest)"
  by (induction k) (simp_all add: scan_string_quote scan_escape_char consed_def)

lemma lex_encode_str: "json_lex R (encode_str k @ rest) = emit (Str k) (json_lex R rest)"
  by (simp add: encode_str_def json_lex.simps(2) [of _ "CHR 0x22"] scan_string_escaped)


section \<open>Floats written and read back\<close>

lemma scan_number_concat:
  assumes "scan_number s = Some ((ip, fr, ex), r)"
  shows "s = ip @ fr @ ex @ r"
proof -
  have sg: "fst (scan_sign xs) @ snd (scan_sign xs) = xs" for xs
    by (auto simp: scan_sign_def split: list.splits)
  have ipart: "scan_int_part xs = Some (a, b) \<Longrightarrow> a @ b = xs" for xs a b
    by (auto simp: scan_int_part_def split: list.splits if_splits)
  have frac: "fst (scan_frac xs) @ snd (scan_frac xs) = xs" for xs
    by (auto simp: scan_frac_def split: list.splits)
  have expo: "fst (scan_exp xs) @ snd (scan_exp xs) = xs" for xs
  proof (cases xs)
    case Nil
    then show ?thesis by (simp add: scan_exp_def)
  next
    case (Cons c cs)
    have "sgn' @ takeWhile is_digit (drop (length sgn') cs) @ dropWhile is_digit (drop (length sgn') cs) = cs"
      if "sgn' = (case cs of [] \<Rightarrow> [] | d # ds \<Rightarrow> if d = CHR ''-'' \<or> d = CHR ''+'' then [d] else [])"
      for sgn'
      using that by (cases cs) auto
    then show ?thesis using Cons by (auto simp: scan_exp_def Let_def)
  qed
  from assms obtain a s2 where 1: "scan_int_part (snd (scan_sign s)) = Some (a, s2)"
    and 2: "ip = fst (scan_sign s) @ a" and 3: "fr = fst (scan_frac s2)"
    and 4: "ex = fst (scan_exp (snd (scan_frac s2)))" and 5: "r = snd (scan_exp (snd (scan_frac s2)))"
    by (auto simp: scan_number_def Let_def split: option.splits prod.splits)
  have "s = fst (scan_sign s) @ snd (scan_sign s)" by (simp add: sg)
  also have "snd (scan_sign s) = a @ s2" using ipart [OF 1] by simp
  also have "s2 = fst (scan_frac s2) @ snd (scan_frac s2)" by (simp add: frac)
  also have "snd (scan_frac s2) = ex @ r" using expo [of "snd (scan_frac s2)"] 4 5 by simp
  finally show ?thesis using 2 3 by simp
qed

lemma scan_number_first:
  assumes "scan_number s = Some (parts, r)"
  obtains c cs where "s = c # cs" "is_digit c \<or> c = CHR ''-''"
proof -
  from assms obtain a s2 where 1: "scan_int_part (snd (scan_sign s)) = Some (a, s2)"
    by (auto simp: scan_number_def Let_def split: option.splits prod.splits)
  show ?thesis
  proof (cases s)
    case Nil
    with 1 show ?thesis by (simp add: scan_sign_def scan_int_part_def)
  next
    case (Cons c cs)
    have "is_digit c \<or> c = CHR ''-''"
    proof (rule ccontr)
      assume n: "\<not> (is_digit c \<or> c = CHR ''-'')"
      then have "c \<noteq> CHR ''0''" by (auto simp: is_digit_def)
      with n 1 Cons show False by (simp add: scan_sign_def scan_int_part_def)
    qed
    with Cons that show ?thesis by blast
  qed
qed

lemma lex_constants:
  "json_lex R (CHR ''N'' # CHR ''a'' # CHR ''N'' # s) = emit (Atom (VFloat (float_of_str R ''NaN''))) (json_lex R s)"
  "json_lex R (CHR ''I'' # CHR ''n'' # CHR ''f'' # CHR ''i'' # CHR ''n'' # CHR ''i'' # CHR ''t'' # CHR ''y'' # s)
     = emit (Atom (VFloat (float_of_str R ''Infinity''))) (json_lex R s)"
  "json_lex R (CHR ''-'' # CHR ''I'' # CHR ''n'' # CHR ''f'' # CHR ''i'' # CHR ''n'' # CHR ''i'' # CHR ''t'' # CHR ''y'' # s)
     = emit (Atom (VFloat (float_of_str R ''-Infinity''))) (json_lex R s)"
  by (subst json_lex.simps,
      simp add: starts_with_def scan_number_def scan_sign_def scan_int_part_def is_digit_def)+

lemma lex_float:
  assumes "float_codec R" "delim rest"
  shows "json_lex R (float_repr R f @ rest) = emit (Atom (VFloat f)) (json_lex R rest)"
proof -
  let ?s = "float_repr R f"
  have readback: "float_of_str R ?s = f" and ft: "float_text ?s"
    using assms(1) by (simp_all add: float_codec_def)
  consider (const) "?s = ''NaN'' \<or> ?s = ''Infinity'' \<or> ?s = ''-Infinity''"
    | (num) ip fr ex where "scan_number ?s = Some ((ip, fr, ex), [])" "fr \<noteq> [] \<or> ex \<noteq> []"
    using ft by (auto simp: float_text_def split: option.splits)
  then show ?thesis
  proof cases
    case const
    then show ?thesis using readback lex_constants [of R rest] by auto
  next
    case num
    from scan_number_concat [OF num(1)] have s: "?s = ip @ fr @ ex" by simp
    obtain c cs where cs: "?s = c # cs" and c: "is_digit c \<or> c = CHR ''-''"
      using scan_number_first [OF num(1)] by blast
    have "scan_number (?s @ rest) = Some ((ip, fr, ex), rest)"
      by (simp add: scan_number_append [OF assms(2)] num(1))
    then have "scan_number (c # cs @ rest) = Some ((ip, fr, ex), rest)" by (simp add: cs)
    from lex_number [OF c this, of R]
    have "json_lex R (c # cs @ rest) = emit (Atom (number_value R (ip, fr, ex))) (json_lex R rest)" .
    moreover have "number_value R (ip, fr, ex) = VFloat f"
      using num(2) readback s by (auto simp: number_value_def)
    ultimately show ?thesis by (simp add: cs)
  qed
qed


section \<open>The text of a value, read back\<close>

lemma join_Cons: "join sep (p # ps) = (if ps = [] then p else p @ sep @ join sep ps)"
  by (cases ps) simp_all

lemma dumps_elems_Nil: "dumps_elems R dflt xs = Inr ps \<Longrightarrow> (ps = []) = (xs = [])"
  by (cases xs) (auto simp: attempt_eq_Inr)

lemma dumps_pairs_Nil: "dumps_pairs R dflt kvs = Inr ps \<Longrightarrow> (ps = []) = (kvs = [])"
  by (cases kvs) (auto simp: attempt_eq_Inr)

lemma delim_simps [simp]:
  "delim []" "delim (CHR '','' # s)" "delim (CHR '']'' # s)" "delim (CHR ''}'' # s)"
  by (simp_all add: delim_def)

lemma lex_dumps:
  assumes codec: "float_codec R"
  shows "json_dumps R False v = Inr s \<Longrightarrow> delim rest \<Longrightarrow>
           json_lex R (s @ rest) = emits (tokens v) (json_lex R rest)"
    and "dumps_elems R False xs = Inr ps \<Longrightarrow> delim rest \<Longrightarrow>
           json_lex R (join '', '' ps @ rest) = emits (tokens_elems xs) (json_lex R rest)"
    and "dumps_pairs R False kvs = Inr ps \<Longrightarrow> delim rest \<Longrightarrow>
           json_lex R (join '', '' ps @ rest) = emits (tokens_pairs kvs) (json_lex R rest)"
proof (induction v and xs and kvs arbitrary: s rest and ps rest and ps rest
    rule: tokens_tokens_elems_tokens_pairs.induct)
  case (1 xs)
  from "1.prems"(1) obtain ps where ps: "dumps_elems R False xs = Inr ps"
    and s: "s = CHR ''['' # join '', '' ps @ '']''"
    by (auto simp: attempt_eq_Inr)
  have "json_lex R (join '', '' ps @ CHR '']'' # rest)
          = emits (tokens_elems xs) (json_lex R (CHR '']'' # rest))"
    by (rule "1.IH" [OF ps]) simp
  then show ?case by (simp add: s lex_punct)
next
  case (2 kvs)
  from "2.prems"(1) obtain ps where ps: "dumps_pairs R False kvs = Inr ps"
    and s: "s = CHR ''{'' # join '', '' ps @ ''}''"
    by (auto simp: attempt_eq_Inr)
  have "json_lex R (join '', '' ps @ CHR ''}'' # rest)
          = emits (tokens_pairs kvs) (json_lex R (CHR ''}'' # rest))"
    by (rule "2.IH" [OF ps]) simp
  then show ?case by (simp add: s lex_punct)
next
  case (3 k)
  then show ?case by (auto simp: lex_encode_str)
next
  case (4 k a)
  then show ?case by simp
next
  case 5
  then show ?case by (auto simp: lex_literal)
next
  case (6 b)
  then show ?case by (auto simp: lex_literal)
next
  case (7 i)
  then show ?case by (auto simp: lex_show_int)
next
  case (8 f)
  then show ?case by (auto simp: lex_float [OF codec])
next
  case 9
  then show ?case by simp
next
  case (10 x xs)
  from "10.prems"(1) obtain p ps' where p: "json_dumps R False x = Inr p"
    and ps': "dumps_elems R False xs = Inr ps'" and ps: "ps = p # ps'"
    by (auto simp: attempt_eq_Inr)
  show ?case
  proof (cases "xs = []")
    case True
    then have "ps' = []" using ps' by simp
    with True "10.IH"(1) [OF p "10.prems"(2)] show ?thesis by (simp add: ps)
  next
    case False
    then have ne: "ps' \<noteq> []" using dumps_elems_Nil [OF ps'] by simp
    have "json_lex R (p @ CHR '','' # CHR '' '' # join '', '' ps' @ rest)
            = emits (tokens x) (json_lex R (CHR '','' # CHR '' '' # join '', '' ps' @ rest))"
      by (rule "10.IH"(1) [OF p]) simp
    moreover have "json_lex R (join '', '' ps' @ rest) = emits (tokens_elems xs) (json_lex R rest)"
      by (rule "10.IH"(2) [OF False ps' "10.prems"(2)])
    ultimately show ?thesis using False ne by (simp add: ps join_Cons lex_punct)
  qed
next
  case 11
  then show ?case by simp
next
  case (12 kv kvs)
  from "12.prems"(1) obtain p ps' where p: "json_dumps R False (snd kv) = Inr p"
    and ps': "dumps_pairs R False kvs = Inr ps'"
    and ps: "ps = (encode_str (fst kv) @ '': '' @ p) # ps'"
    by (auto simp: attempt_eq_Inr)
  have key: "json_lex R (encode_str (fst kv) @ CHR '':'' # CHR '' '' # p @ tl)
               = emit (Str (fst kv)) (emit Colon (json_lex R (p @ tl)))" for tl
    by (simp add: lex_encode_str lex_punct)
  show ?case
  proof (cases "kvs = []")
    case True
    then have "ps' = []" using ps' by simp
    with True "12.IH"(1) [OF p "12.prems"(2)] key [of rest] show ?thesis by (simp add: ps)
  next
    case False
    then have ne: "ps' \<noteq> []" using dumps_pairs_Nil [OF ps'] by simp
    have "json_lex R (p @ CHR '','' # CHR '' '' # join '', '' ps' @ rest)
            = emits (tokens (snd kv)) (json_lex R (CHR '','' # CHR '' '' # join '', '' ps' @ rest))"
      by (rule "12.IH"(1) [OF p]) simp
    moreover have "json_lex R (join '', '' ps' @ rest) = emits (tokens_pairs kvs) (json_lex R rest)"
      by (rule "12.IH"(2) [OF False ps' "12.prems"(2)])
    ultimately show ?thesis
      using False ne key [of "CHR '','' # CHR '' '' # join '', '' ps' @ rest"]
      by (simp add: ps join_Cons lex_punct)
  qed
qed


lemma update_fresh: "k \<notin> fst ` set al \<Longrightarrow> AList.update k v al = al @ [(k, v)]"
  by (induction al) auto

lemma step_value:
  assumes "m = PValue \<or> m = PFirst" "t \<noteq> RBrack"
  shows "step m st t = value_token t st"
  using assms by auto

lemma run_tokens:
  shows "json_dumps R False v = Inr s \<Longrightarrow> distinct_keys v \<Longrightarrow> m = PValue \<or> m = PFirst \<Longrightarrow>
           run (m, st) (tokens v @ ts) = (case complete v st of None \<Rightarrow> None | Some s' \<Rightarrow> run s' ts)"
    and "dumps_elems R False xs = Inr ps \<Longrightarrow> distinct_keys_elems xs \<Longrightarrow> xs \<noteq> [] \<Longrightarrow>
           m = PValue \<or> m = PFirst \<Longrightarrow>
           run (m, FList es # st) (tokens_elems xs @ ts) = run (PNext, FList (es @ xs) # st) ts"
    and "dumps_pairs R False kvs = Inr ps \<Longrightarrow> distinct_keys_pairs kvs \<Longrightarrow>
           distinct (map fst (kvs0 @ kvs)) \<Longrightarrow> kvs \<noteq> [] \<Longrightarrow> m = PKeyFirst \<or> m = PKey \<Longrightarrow>
           run (m, FDict kvs0 # st) (tokens_pairs kvs @ ts) = run (PNext, FDict (kvs0 @ kvs) # st) ts"
proof (induction v and xs and kvs arbitrary: s m st ts and ps m es st ts and ps m kvs0 st ts
    rule: tokens_tokens_elems_tokens_pairs.induct)
  case (1 xs)
  from "1.prems"(1) obtain ps where ps: "dumps_elems R False xs = Inr ps"
    by (auto simp: attempt_eq_Inr)
  have first: "step m st LBrack = Some (PFirst, FList [] # st)"
    using "1.prems"(3) by (simp add: step_value)
  show ?case
  proof (cases "xs = []")
    case True
    then show ?thesis using first by simp
  next
    case False
    have "run (PFirst, FList [] # st) (tokens_elems xs @ RBrack # ts)
            = run (PNext, FList ([] @ xs) # st) (RBrack # ts)"
      using "1.prems"(2) by (intro "1.IH" [OF ps] False) simp_all
    then show ?thesis using first by simp
  qed
next
  case (2 kvs)
  from "2.prems"(1) obtain ps where ps: "dumps_pairs R False kvs = Inr ps"
    by (auto simp: attempt_eq_Inr)
  have first: "step m st LBrace = Some (PKeyFirst, FDict [] # st)"
    using "2.prems"(3) by (simp add: step_value)
  show ?case
  proof (cases "kvs = []")
    case True
    then show ?thesis using first by simp
  next
    case False
    have "run (PKeyFirst, FDict [] # st) (tokens_pairs kvs @ RBrace # ts)
            = run (PNext, FDict ([] @ kvs) # st) (RBrace # ts)"
      using "2.prems"(2) by (intro "2.IH" [OF ps] False) simp_all
    then show ?thesis using first by simp
  qed
next
  case (3 k)
  then show ?case by (simp add: step_value)
next
  case (4 k a)
  then show ?case by simp
next
  case 5
  then show ?case by (simp add: step_value)
next
  case (6 b)
  then show ?case by (simp add: step_value)
next
  case (7 i)
  then show ?case by (simp add: step_value)
next
  case (8 f)
  then show ?case by (simp add: step_value)
next
  case 9
  then show ?case by simp
next
  case (10 x xs)
  from "10.prems"(1) obtain p ps' where p: "json_dumps R False x = Inr p"
    and ps': "dumps_elems R False xs = Inr ps'"
    by (auto simp: attempt_eq_Inr)
  have dx: "distinct_keys x" and dxs: "distinct_keys_elems xs" using "10.prems"(2) by simp_all
  have one: "run (m, FList es # st) (tokens x @ us) = run (PNext, FList (es @ [x]) # st) us" for us
    using "10.IH"(1) [OF p dx "10.prems"(4), of "FList es # st" us] by simp
  show ?case
  proof (cases "xs = []")
    case True
    then show ?thesis using one [of ts] by simp
  next
    case False
    have "run (PValue, FList (es @ [x]) # st) (tokens_elems xs @ ts)
            = run (PNext, FList ((es @ [x]) @ xs) # st) ts"
      by (rule "10.IH"(2) [OF False ps' dxs False]) simp
    then show ?thesis using False one [of "Comma # tokens_elems xs @ ts"] by simp
  qed
next
  case 11
  then show ?case by simp
next
  case (12 kv kvs)
  obtain k v where kv: "kv = (k, v)" by (cases kv)
  from "12.prems"(1) obtain p ps' where p: "json_dumps R False v = Inr p"
    and ps': "dumps_pairs R False kvs = Inr ps'"
    by (auto simp: attempt_eq_Inr kv)
  have dv: "distinct_keys v" and dkvs: "distinct_keys_pairs kvs"
    using "12.prems"(2) by (simp_all add: kv)
  have fresh: "k \<notin> fst ` set kvs0" using "12.prems"(3) by (auto simp: kv)
  have key: "step m (FDict kvs0 # st) (Str k) = Some (PColon k, FDict kvs0 # st)"
    using "12.prems"(5) by auto
  have "run (PValue, FEntry kvs0 k # st) (tokens v @ us)
          = run (PNext, FDict (kvs0 @ [(k, v)]) # st) us" for us
    using "12.IH"(1) [unfolded kv, simplified, OF p dv, of PValue "FEntry kvs0 k # st" us]
    by (simp add: update_fresh [OF fresh])
  then have one: "run (m, FDict kvs0 # st) (Str k # Colon # tokens v @ us)
                    = run (PNext, FDict (kvs0 @ [(k, v)]) # st) us" for us
    using key by simp
  show ?case
  proof (cases "kvs = []")
    case True
    then show ?thesis using one [of ts] by (simp add: kv)
  next
    case False
    have "run (PKey, FDict (kvs0 @ [(k, v)]) # st) (tokens_pairs kvs @ ts)
            = run (PNext, FDict ((kvs0 @ [(k, v)]) @ kvs) # st) ts"
      using "12.prems"(3) by (intro "12.IH"(2) [OF False ps' dkvs _ False]) (simp_all add: kv)
    then show ?thesis using False one [of "Comma # tokens_pairs kvs @ ts"] by (simp add: kv)
  qed
qed

lemma json_roundtrip:
  assumes "float_codec R" "json_dumps R False v = Inr s" "distinct_keys v"
  shows "json_loads R s = Inr v"
proof -
  have "json_lex R (s @ []) = emits (tokens v) (json_lex R [])"
    by (rule lex_dumps(1) [OF assms(1,2)]) simp
  then have l: "json_lex R s = Some (tokens v)" by (simp add: json_lex.simps emits_def)
  have "run (PValue, []) (tokens v @ []) = (case complete v [] of None \<Rightarrow> None | Some s' \<Rightarrow> run s' [])"
    by (rule run_tokens(1) [OF assms(2,3)]) simp
  then have "run (PValue, []) (tokens v) = Some (PDone v, [])" by simp
  with l show ?thesis by (simp add: json_loads_def parse_def)
qed

section \<open>The two-place decimal runtime reads its floats back\<close>

lemma takeWhile_then:
  "list_all P xs \<Longrightarrow> r = [] \<or> \<not> P (hd r) \<Longrightarrow>
     takeWhile P (xs @ r) = xs \<and> dropWhile P (xs @ r) = r"
  by (induction xs) (auto simp: takeWhile_eq_Nil_iff dropWhile_eq_self_iff)

lemma not_digit_dot: "\<not> is_digit CHR ''.''"
  by (simp add: is_digit_def)

lemma scan_int_part_show_nat_dot:
  "scan_int_part (show_nat n @ CHR ''.'' # r) = Some (show_nat n, CHR ''.'' # r)"
proof -
  obtain c cs where cs: "show_nat n = c # cs"
    using show_nat_nonempty by (cases "show_nat n") auto
  have dig: "is_digit c" "list_all is_digit cs" using show_nat_digits [of n] cs by simp_all
  show ?thesis
  proof (cases "c = CHR ''0''")
    case True
    then have "n = 0" using show_nat_hd [of n] cs by simp
    then show ?thesis by (simp add: show_nat_zero scan_int_part_def)
  next
    case False
    have "takeWhile is_digit (cs @ CHR ''.'' # r) = cs \<and> dropWhile is_digit (cs @ CHR ''.'' # r) = CHR ''.'' # r"
      by (rule takeWhile_then [OF dig(2)]) (simp add: not_digit_dot)
    then show ?thesis using False dig(1) by (simp add: cs scan_int_part_def)
  qed
qed

lemma show_nat_not_minus: "\<exists>c cs. show_nat n = c # cs \<and> c \<noteq> CHR ''-''"
proof -
  obtain c cs where cs: "show_nat n = c # cs"
    using show_nat_nonempty by (cases "show_nat n") auto
  have "is_digit c" using show_nat_digits [of n] cs by simp
  then have "c \<noteq> CHR ''-''" using not_digit_minus by auto
  with cs show ?thesis by blast
qed

lemma digit_val_zero: "digit_val CHR ''0'' = 0"
  by (simp add: digit_val_def)

lemma cents_repr_shape:
  obtains ds where "cents_repr x = (if x < 0 then ''-'' else []) @ show_nat (nat \<bar>x\<bar> div 100) @ CHR ''.'' # ds"
    and "ds \<noteq> []" and "list_all is_digit ds"
    and "parse_nat (take 2 (ds @ ''00'')) = nat \<bar>x\<bar> mod 100"
proof -
  define f where "f = nat \<bar>x\<bar> mod 100"
  define ds where "ds = (if f mod 10 = 0 then [digit_char (f div 10)]
                         else [digit_char (f div 10), digit_char (f mod 10)])"
  have f: "f div 10 < 10" "f mod 10 < 10" by (simp_all add: f_def less_mult_imp_div_less)
  have r: "cents_repr x = (if x < 0 then ''-'' else []) @ show_nat (nat \<bar>x\<bar> div 100) @ CHR ''.'' # ds"
    unfolding cents_repr_def Let_def ds_def f_def by simp
  have ne: "ds \<noteq> []" by (simp add: ds_def)
  have dig: "list_all is_digit ds" using f by (simp add: ds_def is_digit_digit_char)
  have val: "parse_nat (take 2 (ds @ ''00'')) = f"
  proof (cases "f mod 10 = 0")
    case True
    then have "10 * (f div 10) = f" by presburger
    then show ?thesis
      using f True by (simp add: ds_def parse_nat_def digit_val_digit_char digit_val_zero)
  next
    case False
    then show ?thesis
      using f by (simp add: ds_def parse_nat_def digit_val_digit_char)
  qed
  show ?thesis by (rule that [OF r ne dig val [unfolded f_def]])
qed

lemma cents_scan_sign:
  "scan_sign ((if neg then ''-'' else []) @ show_nat n @ r)
     = ((if neg then ''-'' else []), show_nat n @ r)"
  using show_nat_not_minus [of n] by (auto simp: scan_sign_def)

lemma scan_number_decimal:
  assumes "list_all is_digit ds" "ds \<noteq> []"
  shows "scan_number ((if neg then ''-'' else []) @ show_nat n @ CHR ''.'' # ds)
           = Some (((if neg then ''-'' else []) @ show_nat n, CHR ''.'' # ds, []), [])"
proof -
  have tw: "takeWhile is_digit ds = ds" "dropWhile is_digit ds = []"
    using takeWhile_all [OF assms(1)] by simp_all
  show ?thesis
    unfolding scan_number_def cents_scan_sign
    using assms(2) by (simp add: scan_int_part_show_nat_dot scan_frac_def scan_exp_def tw)
qed

lemma cents_of_str_decimal:
  assumes "list_all is_digit ds"
  shows "cents_of_str ((if neg then ''-'' else []) @ show_nat n @ CHR ''.'' # ds)
           = (if neg then - int (n * 100 + parse_nat (take 2 (ds @ ''00'')))
              else int (n * 100 + parse_nat (take 2 (ds @ ''00''))))"
proof -
  have tw: "takeWhile is_digit ds = ds" "dropWhile is_digit ds = []"
    using takeWhile_all [OF assms(1)] by simp_all
  have w: "takeWhile is_digit (show_nat n @ CHR ''.'' # ds) = show_nat n
           \<and> dropWhile is_digit (show_nat n @ CHR ''.'' # ds) = CHR ''.'' # ds"
    by (rule takeWhile_then [OF show_nat_digits]) (simp add: not_digit_dot)
  show ?thesis
    unfolding cents_of_str_def cents_scan_sign
    by (simp add: w tw parse_nat_show_nat Let_def)
qed

lemma cents_float_codec: "float_codec cents_runtime"
proof -
  have "float_text (cents_repr x) \<and> cents_of_str (cents_repr x) = x" for x
  proof -
    obtain ds where shape: "cents_repr x = (if x < 0 then ''-'' else []) @ show_nat (nat \<bar>x\<bar> div 100) @ CHR ''.'' # ds"
      and ne: "ds \<noteq> []" and dig: "list_all is_digit ds"
      and val: "parse_nat (take 2 (ds @ ''00'')) = nat \<bar>x\<bar> mod 100"
      by (rule cents_repr_shape)
    have ft: "float_text (cents_repr x)"
      unfolding shape float_text_def scan_number_decimal [OF dig ne] by simp
    have "cents_of_str (cents_repr x)
            = (if x < 0 then - int (nat \<bar>x\<bar> div 100 * 100 + nat \<bar>x\<bar> mod 100)
               else int (nat \<bar>x\<bar> div 100 * 100 + nat \<bar>x\<bar> mod 100))"
      unfolding shape cents_of_str_decimal [OF dig] val ..
    also have "\<dots> = x" by simp
    finally show ?thesis using ft by simp
  qed
  then show ?thesis by (simp add: float_codec_def cents_runtime_def)
qed

section \<open>What \<^verbatim>\<open>AnalyzeReceipt\<close> writes\<close>

lemma AnalyzeReceipt_returns: "\<exists>out. AnalyzeReceipt R S name = Inr out"
  by (simp add: AnalyzeReceipt_def Let_def split: sum.splits)

lemma AnalyzeReceipt_raised:
  "AnalyzeReceipt_try R S name (analyze_receipt_id name) = Inl e \<Longrightarrow> AnalyzeReceipt R S name = Inr None"
  by (simp add: AnalyzeReceipt_def Let_def)

lemma AnalyzeReceipt_Some:
  "(AnalyzeReceipt R S name = Inr (Some encoded)) =
     (\<exists>receipt data. analyzed_fields S name = Some receipt
        \<and> output_data R (analyze_receipt_id name) receipt = Inr data
        \<and> json_dumps R False data = Inr encoded)"
  by (auto simp: AnalyzeReceipt_def AnalyzeReceipt_try_def analyzed_fields_def Let_def
      attempt_eq_Inr split: sum.splits option.splits list.splits)

lemma AnalyzeReceipt_no_fields:
  "analyzed_fields S name = None \<Longrightarrow> AnalyzeReceipt R S name = Inr None"
  by (auto simp: AnalyzeReceipt_def AnalyzeReceipt_try_def analyzed_fields_def Let_def
      split: sum.splits option.splits list.splits)

lemma output_data_Inr:
  "(output_data R rid receipt = Inr data) =
     (\<exists>items_list subtotal items_json tax total.
        receipt_items R receipt = Inr items_list
      \<and> calculated_subtotal R items_list = Inr subtotal
      \<and> json_dumps R False (VList items_list) = Inr items_json
      \<and> get_value receipt ''TotalTax'' = Inr tax
      \<and> get_value receipt ''Total'' = Inr total
      \<and> data = VDict [(''PartitionKey'', VStr ''receipt''), (''RowKey'', VStr rid),
                       (''items'', VStr items_json), (''subtotal'', subtotal),
                       (''tax'', py_or R tax (VInt 0)), (''total'', py_or R total (VInt 0))])"
  by (auto simp: output_data_def attempt_eq_Inr)

lemma attr_value_Inr: "(attr_value x = Inr v) = (\<exists>s. x = VObject s (Some v))"
  by (cases x rule: attr_value.cases) auto

lemma get_value_Inr:
  "(get_value x k = Inr v) = (\<exists>kvs s. x = VDict kvs \<and> map_of kvs k = Some (VObject s (Some v)))"
proof (cases x)
  case (VDict kvs)
  show ?thesis
  proof (cases "map_of kvs k")
    case None
    then show ?thesis using VDict by (simp add: get_value_def)
  next
    case (Some w)
    then show ?thesis using VDict by (auto simp: get_value_def attr_value_Inr)
  qed
qed (simp_all add: get_value_def)

lemma get_value_missing: "map_of kvs k = None \<Longrightarrow> get_value (VDict kvs) k = Inl AttributeError"
  by (simp add: get_value_def)

lemma extract_item_Inr:
  "(extract_item R item = Inr d) =
     (\<exists>s props description price.
        item = VObject s (Some props)
      \<and> get_value props ''Description'' = Inr description
      \<and> get_value props ''TotalPrice'' = Inr price
      \<and> d = VDict [(''description'', description), (''totalPrice'', py_or R price (VInt 0))])"
  by (auto simp: extract_item_def attempt_eq_Inr attr_value_Inr)

lemma items_loop_Inr:
  "items_loop R src acc = Inr out \<Longrightarrow>
     \<exists>ds. out = acc @ ds \<and> list_all2 (\<lambda>item d. extract_item R item = Inr d) src ds"
proof (induction src arbitrary: acc)
  case Nil
  then show ?case by simp
next
  case (Cons item rest)
  from Cons.prems obtain d where d: "extract_item R item = Inr d"
    and r: "items_loop R rest (acc @ [d]) = Inr out"
    by (auto simp: attempt_eq_Inr)
  from Cons.IH [OF r] obtain ds where "out = (acc @ [d]) @ ds"
    "list_all2 (\<lambda>item d. extract_item R item = Inr d) rest ds" by blast
  with d have "out = acc @ (d # ds) \<and> list_all2 (\<lambda>item d. extract_item R item = Inr d) (item # rest) (d # ds)"
    by simp
  then show ?case by blast
qed

lemma py_add_Inr: "py_add R a b = Inr c \<Longrightarrow> is_number a \<and> is_number b \<and> is_number c"
  by (auto simp: py_add_def is_number_def attempt_eq_Inr to_float_def
      split: option.splits num.splits)

lemma total_price_loop_numbers:
  "total_price_loop R acc items = Inr s \<Longrightarrow>
     \<forall>item\<in>set items. \<exists>p. dict_index item ''totalPrice'' = Inr p \<and> is_number p"
proof (induction items arbitrary: acc)
  case Nil
  then show ?case by simp
next
  case (Cons item rest)
  from Cons.prems obtain p acc' where p: "dict_index item ''totalPrice'' = Inr p"
    and a: "py_add R acc p = Inr acc'" and r: "total_price_loop R acc' rest = Inr s"
    by (auto simp: attempt_eq_Inr)
  from py_add_Inr [OF a] p Cons.IH [OF r] show ?case by auto
qed

lemma calculated_subtotal_numbers:
  "calculated_subtotal R items = Inr s \<Longrightarrow>
     \<forall>item\<in>set items. \<exists>p. dict_index item ''totalPrice'' = Inr p \<and> is_number p"
  by (auto simp: calculated_subtotal_def total_price_sum_def attempt_eq_Inr
      dest!: total_price_loop_numbers)

section \<open>Python values stay Python values\<close>

lemma distinct_keys_elems_iff: "distinct_keys_elems xs = (\<forall>x\<in>set xs. distinct_keys x)"
  by (induction xs) auto

lemma distinct_keys_pairs_iff: "distinct_keys_pairs kvs = (\<forall>kv\<in>set kvs. distinct_keys (snd kv))"
  by (induction kvs) auto

lemma distinct_keys_map_of:
  "distinct_keys_pairs kvs \<Longrightarrow> map_of kvs k = Some v \<Longrightarrow> distinct_keys v"
  by (auto simp: distinct_keys_pairs_iff dest!: map_of_SomeD)

lemma distinct_keys_attr:
  "distinct_keys x \<Longrightarrow> attr_value x = Inr v \<Longrightarrow> distinct_keys v"
  by (auto simp: attr_value_Inr)

lemma distinct_keys_get_value:
  assumes "distinct_keys x" "get_value x k = Inr v"
  shows "distinct_keys v"
proof -
  from assms(2) obtain kvs s where x: "x = VDict kvs" and m: "map_of kvs k = Some (VObject s (Some v))"
    unfolding get_value_Inr by blast
  from assms(1) x have "distinct_keys_pairs kvs" by simp
  from distinct_keys_map_of [OF this m] show ?thesis by simp
qed

lemma distinct_keys_or: "distinct_keys a \<Longrightarrow> distinct_keys b \<Longrightarrow> distinct_keys (py_or R a b)"
  by (simp add: py_or_def)

lemma distinct_keys_iter:
  "distinct_keys x \<Longrightarrow> py_iter x = Inr items \<Longrightarrow> \<forall>item\<in>set items. distinct_keys item"
  by (cases x) (auto simp: distinct_keys_elems_iff)

lemma distinct_keys_item:
  assumes "distinct_keys item" "extract_item R item = Inr d"
  shows "distinct_keys d"
proof -
  from assms(2) obtain s props description price where i: "item = VObject s (Some props)"
    and g: "get_value props ''Description'' = Inr description"
       "get_value props ''TotalPrice'' = Inr price"
    and d: "d = VDict [(''description'', description), (''totalPrice'', py_or R price (VInt 0))]"
    unfolding extract_item_Inr by blast
  have p: "distinct_keys props" using assms(1) i by simp
  show ?thesis
    using distinct_keys_get_value [OF p g(1)] distinct_keys_get_value [OF p g(2)]
    by (simp add: d distinct_keys_or)
qed

lemma distinct_keys_loop:
  "items_loop R src acc = Inr out \<Longrightarrow> \<forall>item\<in>set src. distinct_keys item \<Longrightarrow>
     \<forall>d\<in>set acc. distinct_keys d \<Longrightarrow> \<forall>d\<in>set out. distinct_keys d"
proof (induction src arbitrary: acc)
  case Nil
  then show ?case by simp
next
  case (Cons item rest)
  from Cons.prems(1) obtain d where d: "extract_item R item = Inr d"
    and r: "items_loop R rest (acc @ [d]) = Inr out"
    by (auto simp: attempt_eq_Inr)
  have "distinct_keys item" using Cons.prems(2) by simp
  then have dd: "distinct_keys d" using d by (rule distinct_keys_item)
  have 1: "\<forall>item\<in>set rest. distinct_keys item" using Cons.prems(2) by simp
  have 2: "\<forall>d\<in>set (acc @ [d]). distinct_keys d" using Cons.prems(3) dd by simp
  show ?case by (rule Cons.IH [OF r 1 2])
qed

lemma receipt_items_cases:
  assumes "receipt_items R receipt = Inr items_list"
  obtains (none) "items_list = []"
  | (some) kvs s items_value items where "receipt = VDict kvs"
      "map_of kvs ''Items'' = Some (VObject s (Some items_value))"
      "py_iter items_value = Inr items" "items_loop R items [] = Inr items_list"
proof -
  from assms obtain items_field where g: "dict_get receipt ''Items'' VNone = Inr items_field"
    and rest: "(if truthy R items_field then
         attempt (attr_value items_field) (\<lambda>items_value.
           if truthy R items_value then
             attempt (py_iter items_value) (\<lambda>items. items_loop R items [])
           else Inr [])
       else Inr []) = Inr items_list"
    by (auto simp: receipt_items_def attempt_eq_Inr)
  from g obtain kvs where kvs: "receipt = VDict kvs"
    and f: "items_field = (case map_of kvs ''Items'' of Some w \<Rightarrow> w | None \<Rightarrow> VNone)"
    by (cases receipt) auto
  show ?thesis
  proof (cases "truthy R items_field")
    case False
    with rest have "items_list = []" by simp
    then show ?thesis by (rule none)
  next
    case True
    with rest obtain items_value where a: "attr_value items_field = Inr items_value"
      and iv: "(if truthy R items_value then
             attempt (py_iter items_value) (\<lambda>items. items_loop R items [])
           else Inr []) = Inr items_list"
      by (auto simp: attempt_eq_Inr)
    from a obtain s where o: "items_field = VObject s (Some items_value)"
      by (auto simp: attr_value_Inr)
    with f have m: "map_of kvs ''Items'' = Some (VObject s (Some items_value))"
      by (cases "map_of kvs ''Items''") auto
    show ?thesis
    proof (cases "truthy R items_value")
      case False
      with iv have "items_list = []" by simp
      then show ?thesis by (rule none)
    next
      case True
      with iv obtain items where i: "py_iter items_value = Inr items"
        "items_loop R items [] = Inr items_list"
        by (auto simp: attempt_eq_Inr)
      show ?thesis by (rule some [OF kvs m i])
    qed
  qed
qed

lemma distinct_keys_receipt_items:
  assumes "distinct_keys receipt" "receipt_items R receipt = Inr items_list"
  shows "distinct_keys (VList items_list)"
  using assms(2)
proof (cases rule: receipt_items_cases)
  case none
  then show ?thesis by simp
next
  case (some kvs s items_value items)
  have "distinct_keys_pairs kvs" using assms(1) some(1) by simp
  from distinct_keys_map_of [OF this some(2)] have "distinct_keys items_value" by simp
  from distinct_keys_iter [OF this some(3)] have "\<forall>item\<in>set items. distinct_keys item" .
  from distinct_keys_loop [OF some(4) this] have "\<forall>d\<in>set items_list. distinct_keys d" by simp
  then show ?thesis by (simp add: distinct_keys_elems_iff)
qed

lemma is_number_distinct_keys: "is_number v \<Longrightarrow> distinct_keys v"
  by (cases v) (auto simp: is_number_def)

lemma py_round_number: "py_round R x n = Inr y \<Longrightarrow> is_number y"
  by (auto simp: py_round_def is_number_def split: option.splits num.splits)

lemma calculated_subtotal_number: "calculated_subtotal R items = Inr s \<Longrightarrow> is_number s"
  by (auto simp: calculated_subtotal_def attempt_eq_Inr dest: py_round_number)

lemma distinct_keys_output_data:
  assumes "distinct_keys receipt" "output_data R rid receipt = Inr data"
  shows "distinct_keys data"
proof -
  from assms(2) obtain items_list subtotal items_json tax total where
    s: "calculated_subtotal R items_list = Inr subtotal"
    and t1: "get_value receipt ''TotalTax'' = Inr tax"
    and t2: "get_value receipt ''Total'' = Inr total"
    and data: "data = VDict [(''PartitionKey'', VStr ''receipt''), (''RowKey'', VStr rid),
                       (''items'', VStr items_json), (''subtotal'', subtotal),
                       (''tax'', py_or R tax (VInt 0)), (''total'', py_or R total (VInt 0))]"
    unfolding output_data_Inr by blast
  have "distinct_keys tax" by (rule distinct_keys_get_value [OF assms(1) t1])
  moreover have "distinct_keys total" by (rule distinct_keys_get_value [OF assms(1) t2])
  moreover have "distinct_keys subtotal"
    using calculated_subtotal_number [OF s] by (rule is_number_distinct_keys)
  ultimately show ?thesis by (simp add: data distinct_keys_or)
qed

section \<open>The record, decoded\<close>

lemma written_record:
  assumes "float_codec R" "analyzed_fields S name = Some receipt" "distinct_keys receipt"
    and "AnalyzeReceipt R S name = Inr (Some encoded)"
  obtains items_list subtotal items_json tax total where
    "receipt_items R receipt = Inr items_list"
    "calculated_subtotal R items_list = Inr subtotal"
    "json_dumps R False (VList items_list) = Inr items_json"
    "json_loads R items_json = Inr (VList items_list)"
    "get_value receipt ''TotalTax'' = Inr tax"
    "get_value receipt ''Total'' = Inr total"
    "json_loads R encoded =
       Inr (VDict [(''PartitionKey'', VStr ''receipt''), (''RowKey'', VStr (analyze_receipt_id name)),
                   (''items'', VStr items_json), (''subtotal'', subtotal),
                   (''tax'', py_or R tax (VInt 0)), (''total'', py_or R total (VInt 0))])"
proof -
  from assms(2,4) obtain data where od: "output_data R (analyze_receipt_id name) receipt = Inr data"
    and enc: "json_dumps R False data = Inr encoded"
    unfolding AnalyzeReceipt_Some by auto
  from od obtain items_list subtotal items_json tax total where
    1: "receipt_items R receipt = Inr items_list"
    and 2: "calculated_subtotal R items_list = Inr subtotal"
    and 3: "json_dumps R False (VList items_list) = Inr items_json"
    and 4: "get_value receipt ''TotalTax'' = Inr tax"
    and 5: "get_value receipt ''Total'' = Inr total"
    and data: "data = VDict [(''PartitionKey'', VStr ''receipt''), (''RowKey'', VStr (analyze_receipt_id name)),
                       (''items'', VStr items_json), (''subtotal'', subtotal),
                       (''tax'', py_or R tax (VInt 0)), (''total'', py_or R total (VInt 0))]"
    unfolding output_data_Inr by blast
  have 6: "json_loads R items_json = Inr (VList items_list)"
    by (rule json_roundtrip [OF assms(1) 3 distinct_keys_receipt_items [OF assms(3) 1]])
  have 7: "json_loads R encoded = Inr data"
    by (rule json_roundtrip [OF assms(1) enc distinct_keys_output_data [OF assms(3) od]])
  show ?thesis by (rule that [OF 1 2 3 6 4 5 7 [unfolded data]])
qed

lemma process_blob_written:
  assumes "AnalyzeReceipt R S name = Inr (Some encoded)"
    and "json_loads R encoded = Inr (VDict entity)"
    and "map_of entity ''PartitionKey'' = Some (VStr pk)" "map_of entity ''RowKey'' = Some (VStr rk)"
  shows "process_blob R S name T = T((pk, rk) \<mapsto> entity)"
  using assms by (simp add: process_blob_def table_output_def)

lemma process_blob_nothing:
  "AnalyzeReceipt R S name = Inr None \<Longrightarrow> process_blob R S name T = T"
  by (simp add: process_blob_def table_output_def)

section \<open>The claims about \<^verbatim>\<open>AnalyzeReceipt\<close>\<close>

text \<open>
  Claim C1. For a record written by \<^verbatim>\<open>AnalyzeReceipt\<close>: the stored subtotal is the sum of the
  extracted items' \<^verbatim>\<open>totalPrice\<close> rounded to two places, and decoding the stored \<^verbatim>\<open>items\<close>
  text gives back the extracted list, so the same sum over the decoded list, rounded, is
  the stored subtotal. The reader's decoding step (lines 74 and 75) succeeds on it.
\<close>

theorem stored_subtotal_matches_items:
  assumes "float_codec R" and "analyzed_fields S name = Some receipt" and "distinct_keys receipt"
    and "AnalyzeReceipt R S name = Inr (Some encoded)"
  shows "\<exists>entity items_json items subtotal.
           json_loads R encoded = Inr (VDict entity)
         \<and> process_blob R S name T (''receipt'', analyze_receipt_id name) = Some entity
         \<and> map_of entity ''items'' = Some (VStr items_json)
         \<and> map_of entity ''subtotal'' = Some subtotal
         \<and> receipt_items R receipt = Inr items
         \<and> calculated_subtotal R items = Inr subtotal
         \<and> json_loads R items_json = Inr (VList items)
         \<and> decode_items R entity = Inr (AList.update ''items'' (VList items) entity)"
proof -
  from assms obtain items_list subtotal items_json tax total where
    1: "receipt_items R receipt = Inr items_list"
    and 2: "calculated_subtotal R items_list = Inr subtotal"
    and 3: "json_loads R items_json = Inr (VList items_list)"
    and 4: "json_loads R encoded =
       Inr (VDict [(''PartitionKey'', VStr ''receipt''), (''RowKey'', VStr (analyze_receipt_id name)),
                   (''items'', VStr items_json), (''subtotal'', subtotal),
                   (''tax'', py_or R tax (VInt 0)), (''total'', py_or R total (VInt 0))])"
    by (rule written_record)
  let ?entity = "[(''PartitionKey'', VStr ''receipt''), (''RowKey'', VStr (analyze_receipt_id name)),
                   (''items'', VStr items_json), (''subtotal'', subtotal),
                   (''tax'', py_or R tax (VInt 0)), (''total'', py_or R total (VInt 0))]"
  have 5: "process_blob R S name T = T((''receipt'', analyze_receipt_id name) \<mapsto> ?entity)"
    by (rule process_blob_written [OF assms(4) 4]) simp_all
  have 6: "decode_items R ?entity = Inr (AList.update ''items'' (VList items_list) ?entity)"
    by (simp add: decode_items_def 3)
  have "json_loads R encoded = Inr (VDict ?entity)
      \<and> process_blob R S name T (''receipt'', analyze_receipt_id name) = Some ?entity
      \<and> map_of ?entity ''items'' = Some (VStr items_json)
      \<and> map_of ?entity ''subtotal'' = Some subtotal
      \<and> receipt_items R receipt = Inr items_list
      \<and> calculated_subtotal R items_list = Inr subtotal
      \<and> json_loads R items_json = Inr (VList items_list)
      \<and> decode_items R ?entity = Inr (AList.update ''items'' (VList items_list) ?entity)"
    using 1 2 3 4 5 6 by simp
  then show ?thesis by blast
qed

lemma example_written:
  "\<exists>encoded. AnalyzeReceipt cents_runtime (ok_services (Some [\<lparr>doc_fields = example_receipt\<rparr>]))
       ''receipts/abc123.jpg'' = Inr (Some encoded)"
proof -
  have "(case AnalyzeReceipt cents_runtime (ok_services (Some [\<lparr>doc_fields = example_receipt\<rparr>]))
       ''receipts/abc123.jpg'' of Inr (Some encoded) \<Rightarrow> True | _ \<Rightarrow> False)"
    by code_simp
  then show ?thesis by (auto split: sum.splits option.splits)
qed

theorem stored_subtotal_matches_items_witness:
  "\<exists>encoded entity items_json items.
      AnalyzeReceipt cents_runtime (ok_services (Some [\<lparr>doc_fields = example_receipt\<rparr>]))
        ''receipts/abc123.jpg'' = Inr (Some encoded)
    \<and> json_loads cents_runtime encoded = Inr (VDict entity)
    \<and> map_of entity ''items'' = Some (VStr items_json)
    \<and> map_of entity ''subtotal'' = Some (VFloat 1550)
    \<and> json_loads cents_runtime items_json = Inr (VList items)
    \<and> calculated_subtotal cents_runtime items = Inr (VFloat 1550)"
proof -
  let ?S = "ok_services (Some [\<lparr>doc_fields = example_receipt\<rparr>]) :: int services"
  obtain encoded where e: "AnalyzeReceipt cents_runtime ?S ''receipts/abc123.jpg'' = Inr (Some encoded)"
    using example_written by blast
  have f: "analyzed_fields ?S ''receipts/abc123.jpg'' = Some example_receipt" by code_simp
  have d: "distinct_keys example_receipt" by code_simp
  have r: "receipt_items cents_runtime example_receipt
             = Inr [VDict [(''description'', VStr ''tea''), (''totalPrice'', VFloat 1000)],
                    VDict [(''description'', VStr ''cake''), (''totalPrice'', VFloat 550)]]"
    by code_simp
  have c: "calculated_subtotal cents_runtime
             [VDict [(''description'', VStr ''tea''), (''totalPrice'', VFloat 1000)],
              VDict [(''description'', VStr ''cake''), (''totalPrice'', VFloat 550)]]
           = Inr (VFloat 1550)"
    by code_simp
  from stored_subtotal_matches_items [OF cents_float_codec f d e, of Map.empty] r c e
  show ?thesis by (auto simp del: map_of.simps)
qed

text \<open>
  Claim C2. A \<^verbatim>\<open>null\<close> tax, total or item price is stored as 0; but where the field is absent
  the code writes nothing: \<^verbatim>\<open>receipt.get("TotalTax", {})\<close> gives the \<open>dict\<close> \<^verbatim>\<open>{}\<close>, whose
  attribute \<^verbatim>\<open>value\<close> does not exist, and the \<^verbatim>\<open>AttributeError\<close> is swallowed at line 135. Here
  the analysis has one item and a total, and no \<^verbatim>\<open>TotalTax\<close> field: nothing is set, and the
  table has no row for the receipt.
\<close>

theorem absent_tax_writes_nothing:
  "AnalyzeReceipt cents_runtime
     (ok_services (Some [\<lparr>doc_fields = VDict
        [(''Items'', DocumentField (VList
           [DocumentField (VDict [(''Description'', DocumentField (VStr ''tea'')),
                                  (''TotalPrice'', DocumentField (VFloat 1000))])])),
         (''Total'', DocumentField (VFloat 1000))]\<rparr>]))
     ''receipts/abc123.jpg'' = Inr None
   \<and> process_blob cents_runtime
     (ok_services (Some [\<lparr>doc_fields = VDict
        [(''Items'', DocumentField (VList
           [DocumentField (VDict [(''Description'', DocumentField (VStr ''tea'')),
                                  (''TotalPrice'', DocumentField (VFloat 1000))])])),
         (''Total'', DocumentField (VFloat 1000))]\<rparr>]))
     ''receipts/abc123.jpg'' Map.empty (''receipt'', ''abc123'') = None
   \<and> get_value (VDict [(''Total'', DocumentField (VFloat 1000 :: int pyval))]) ''TotalTax''
       = Inl AttributeError"
  by code_simp

text \<open>
  Claim C5. \<^verbatim>\<open>AnalyzeReceipt\<close> always returns normally. When a step of the \<^verbatim>\<open>try\<close> block
  raises (a client, the SAS token, the analysis, the extraction, or \<^verbatim>\<open>json.dumps\<close>),
  nothing is set in \<^verbatim>\<open>tableOutput\<close> and the table is as it was.
\<close>

theorem analyze_swallows_exceptions:
  "(\<exists>out. AnalyzeReceipt R S name = Inr out)
   \<and> (AnalyzeReceipt_try R S name (analyze_receipt_id name) = Inl e \<longrightarrow>
        AnalyzeReceipt R S name = Inr None \<and> process_blob R S name T = T)
   \<and> (request_analysis S name = Inl e \<longrightarrow>
        AnalyzeReceipt_try R S name (analyze_receipt_id name) = Inl e)
   \<and> (\<forall>receipt. analyzed_fields S name = Some receipt
          \<and> output_data R (analyze_receipt_id name) receipt = Inl e \<longrightarrow>
        AnalyzeReceipt_try R S name (analyze_receipt_id name) = Inl e)
   \<and> (\<forall>receipt data. analyzed_fields S name = Some receipt
          \<and> output_data R (analyze_receipt_id name) receipt = Inr data
          \<and> json_dumps R False data = Inl e \<longrightarrow>
        AnalyzeReceipt_try R S name (analyze_receipt_id name) = Inl e)"
proof -
  have 1: "AnalyzeReceipt_try R S name (analyze_receipt_id name) = Inl e \<Longrightarrow>
        AnalyzeReceipt R S name = Inr None \<and> process_blob R S name T = T"
    by (simp add: AnalyzeReceipt_raised process_blob_nothing)
  have 2: "request_analysis S name = Inl e \<Longrightarrow>
        AnalyzeReceipt_try R S name (analyze_receipt_id name) = Inl e"
    by (simp add: AnalyzeReceipt_try_def)
  have 3: "analyzed_fields S name = Some receipt \<Longrightarrow>
        output_data R (analyze_receipt_id name) receipt = Inl e \<Longrightarrow>
        AnalyzeReceipt_try R S name (analyze_receipt_id name) = Inl e" for receipt
    by (auto simp: AnalyzeReceipt_try_def analyzed_fields_def
        split: sum.splits option.splits list.splits)
  have 4: "analyzed_fields S name = Some receipt \<Longrightarrow>
        output_data R (analyze_receipt_id name) receipt = Inr data \<Longrightarrow>
        json_dumps R False data = Inl e \<Longrightarrow>
        AnalyzeReceipt_try R S name (analyze_receipt_id name) = Inl e" for receipt data
    by (auto simp: AnalyzeReceipt_try_def analyzed_fields_def
        split: sum.splits option.splits list.splits)
  show ?thesis using AnalyzeReceipt_returns [of R S name] 1 2 3 4 by blast
qed

theorem analyze_swallows_exceptions_witness:
  "request_analysis failing_services ''receipts/abc123.jpg'' = Inl (ServiceError ''timeout'')
   \<and> AnalyzeReceipt cents_runtime failing_services ''receipts/abc123.jpg'' = Inr None
   \<and> process_blob cents_runtime failing_services ''receipts/abc123.jpg'' Map.empty = Map.empty"
proof -
  have r: "request_analysis failing_services ''receipts/abc123.jpg'' = Inl (ServiceError ''timeout'')"
    by code_simp
  from analyze_swallows_exceptions [of cents_runtime failing_services "''receipts/abc123.jpg''"
      "ServiceError ''timeout''" Map.empty] r
  show ?thesis by simp
qed

text \<open>
  Claim C4. When the analysis returns no document (\<^verbatim>\<open>None\<close> or an empty list),
  \<^verbatim>\<open>AnalyzeReceipt\<close> returns with nothing set, the table is as it was, and a read of the
  receipt's identifier, of which the table had no row, answers 404. The blob's own
  file name is such an identifier.
\<close>

theorem no_documents_no_record:
  assumes "request_analysis S name = Inr result"
    and "documents result = None \<or> documents result = Some []"
  shows "AnalyzeReceipt R S name = Inr None
       \<and> process_blob R S name T = T
       \<and> reader_receipt_id (blob_basename name) = analyze_receipt_id name
       \<and> (\<forall>blob_name. blob_name \<noteq> [] \<and> reader_receipt_id blob_name = analyze_receipt_id name
             \<and> T (''receipt'', analyze_receipt_id name) = None \<longrightarrow>
           get_receipt_results R (Inr (table_get_entity (process_blob R S name T)))
             [''blobName'' \<mapsto> blob_name] = \<lparr>status_code = 404, body = ''Not found.''\<rparr>)"
proof -
  have a: "AnalyzeReceipt R S name = Inr None"
    using assms by (auto simp: AnalyzeReceipt_def AnalyzeReceipt_try_def Let_def)
  then have p: "process_blob R S name T = T" by (rule process_blob_nothing)
  have "get_receipt_results R (Inr (table_get_entity T)) [''blobName'' \<mapsto> blob_name]
          = \<lparr>status_code = 404, body = ''Not found.''\<rparr>"
    if "blob_name \<noteq> []" "reader_receipt_id blob_name = analyze_receipt_id name"
      "T (''receipt'', analyze_receipt_id name) = None" for blob_name
    using that
    by (simp add: get_receipt_results_def get_receipt_results_try_def table_get_entity_def)
  then show ?thesis
    using a p by (simp add: reader_receipt_id_def analyze_receipt_id_def)
qed

theorem no_documents_no_record_witness:
  "request_analysis (ok_services (Some []) :: int services) ''receipts/abc123.jpg''
     = Inr \<lparr>documents = Some []\<rparr>
   \<and> AnalyzeReceipt cents_runtime (ok_services (Some [])) ''receipts/abc123.jpg'' = Inr None
   \<and> get_receipt_results cents_runtime
        (Inr (table_get_entity
           (process_blob cents_runtime (ok_services (Some [])) ''receipts/abc123.jpg'' Map.empty)))
        [''blobName'' \<mapsto> ''abc123.jpg''] = \<lparr>status_code = 404, body = ''Not found.''\<rparr>"
proof -
  let ?S = "ok_services (Some []) :: int services"
  have r: "request_analysis ?S ''receipts/abc123.jpg'' = Inr \<lparr>documents = Some []\<rparr>"
    by code_simp
  have d: "documents \<lparr>documents = Some ([] :: int analyzed_document list)\<rparr> = None
           \<or> documents \<lparr>documents = Some ([] :: int analyzed_document list)\<rparr> = Some []"
    by simp
  have k: "reader_receipt_id ''abc123.jpg'' = analyze_receipt_id ''receipts/abc123.jpg''"
    by code_simp
  note th = no_documents_no_record [OF r d, of cents_runtime Map.empty]
  from th have a: "AnalyzeReceipt cents_runtime ?S ''receipts/abc123.jpg'' = Inr None" by blast
  from th have "\<forall>blob_name. blob_name \<noteq> []
        \<and> reader_receipt_id blob_name = analyze_receipt_id ''receipts/abc123.jpg''
        \<and> Map.empty (''receipt'', analyze_receipt_id ''receipts/abc123.jpg'') = (None :: int entity option) \<longrightarrow>
      get_receipt_results cents_runtime
        (Inr (table_get_entity (process_blob cents_runtime ?S ''receipts/abc123.jpg'' Map.empty)))
        [''blobName'' \<mapsto> blob_name] = \<lparr>status_code = 404, body = ''Not found.''\<rparr>"
    by blast
  from this [rule_format, of "''abc123.jpg''"] k
  have "get_receipt_results cents_runtime
        (Inr (table_get_entity (process_blob cents_runtime ?S ''receipts/abc123.jpg'' Map.empty)))
        [''blobName'' \<mapsto> ''abc123.jpg''] = \<lparr>status_code = 404, body = ''Not found.''\<rparr>"
    by simp
  with r a show ?thesis by simp
qed

section \<open>The claims about the reader and the upload URL\<close>

text \<open>
  Claim C3, as amended. Without a \<^verbatim>\<open>blobName\<close> (missing or empty) the status is 400. With
  one: an exception of the client or of the lookup gives 404 when it is
  \<^verbatim>\<open>ResourceNotFoundError\<close> and 500 otherwise; when the lookup returns an entity, the
  status is 200 with the entity as JSON (its \<^verbatim>\<open>items\<close> decoded), unless the entity's
  \<^verbatim>\<open>items\<close> is a string that \<^verbatim>\<open>json.loads\<close> rejects: then the status is 500.
\<close>

theorem reader_statuses:
  "(route_params ''blobName'' = None \<or> route_params ''blobName'' = Some [] \<longrightarrow>
      status_code (get_receipt_results R conn route_params) = 400)
   \<and> (\<forall>blob_name. route_params ''blobName'' = Some blob_name \<and> blob_name \<noteq> [] \<longrightarrow>
        (\<forall>e. conn = Inl e \<longrightarrow>
           status_code (get_receipt_results R conn route_params)
             = (if e = ResourceNotFoundError then 404 else 500))
      \<and> (\<forall>client e. conn = Inr client \<and> client ''receipt'' (reader_receipt_id blob_name) = Inl e \<longrightarrow>
           status_code (get_receipt_results R conn route_params)
             = (if e = ResourceNotFoundError then 404 else 500))
      \<and> (\<forall>client entity. conn = Inr client
             \<and> client ''receipt'' (reader_receipt_id blob_name) = Inr entity \<longrightarrow>
           (decode_items R entity = Inl JSONDecodeError
              \<and> status_code (get_receipt_results R conn route_params) = 500)
         \<or> (\<exists>entity' encoded. decode_items R entity = Inr entity'
              \<and> json_dumps R True (VDict entity') = Inr encoded
              \<and> get_receipt_results R conn route_params
                  = \<lparr>status_code = 200, body = encoded\<rparr>)))"
proof -
  have 1: "status_code (get_receipt_results R conn route_params) = 400"
    if "route_params ''blobName'' = None \<or> route_params ''blobName'' = Some []"
    using that by (auto simp: get_receipt_results_def)
  have 2: "status_code (get_receipt_results R conn route_params)
             = (if e = ResourceNotFoundError then 404 else 500)"
    if "route_params ''blobName'' = Some blob_name" "blob_name \<noteq> []" "conn = Inl e" for blob_name e
    using that by (simp add: get_receipt_results_def get_receipt_results_try_def)
  have 3: "status_code (get_receipt_results R conn route_params)
             = (if e = ResourceNotFoundError then 404 else 500)"
    if "route_params ''blobName'' = Some blob_name" "blob_name \<noteq> []" "conn = Inr client"
      "client ''receipt'' (reader_receipt_id blob_name) = Inl e" for blob_name client e
    using that by (simp add: get_receipt_results_def get_receipt_results_try_def)
  have 4: "(decode_items R entity = Inl JSONDecodeError
              \<and> status_code (get_receipt_results R conn route_params) = 500)
         \<or> (\<exists>entity' encoded. decode_items R entity = Inr entity'
              \<and> json_dumps R True (VDict entity') = Inr encoded
              \<and> get_receipt_results R conn route_params
                  = \<lparr>status_code = 200, body = encoded\<rparr>)"
    if "route_params ''blobName'' = Some blob_name" "blob_name \<noteq> []" "conn = Inr client"
      "client ''receipt'' (reader_receipt_id blob_name) = Inr entity" for blob_name client entity
    using reader_found [of client "reader_receipt_id blob_name" entity R, OF that(4)] that(1,2,3)
    by (auto simp: get_receipt_results_def)
  show ?thesis using 1 2 3 4 by blast
qed

theorem reader_statuses_witness:
  "status_code (get_receipt_results cents_runtime
      (Inr (table_get_entity [(''receipt'', ''abc123'') \<mapsto> [(''items'', VStr ''[]'')]]))
      Map.empty) = 400
   \<and> status_code (get_receipt_results cents_runtime
      (Inr (table_get_entity [(''receipt'', ''abc123'') \<mapsto> [(''items'', VStr ''[]'')]]))
      [''blobName'' \<mapsto> ''abc123.jpg'']) = 200
   \<and> status_code (get_receipt_results cents_runtime
      (Inr (table_get_entity [(''receipt'', ''abc123'') \<mapsto> [(''items'', VStr ''[]'')]]))
      [''blobName'' \<mapsto> ''other.jpg'']) = 404"
proof -
  let ?conn = "Inr (table_get_entity [(''receipt'', ''abc123'') \<mapsto> [(''items'', VStr ''[]'')]])
                 :: exn + int table_client"
  have a: "status_code (get_receipt_results cents_runtime ?conn Map.empty) = 400"
    using reader_statuses [of Map.empty cents_runtime ?conn] by simp
  have b: "status_code (get_receipt_results cents_runtime ?conn [''blobName'' \<mapsto> ''abc123.jpg'']) = 200"
    by code_simp
  have c: "status_code (get_receipt_results cents_runtime ?conn [''blobName'' \<mapsto> ''other.jpg'']) = 404"
    by code_simp
  from a b c show ?thesis by simp
qed

text \<open>
  Claim C3 as stated fails where the lookup succeeds and the row's \<^verbatim>\<open>items\<close> is a string that
  is not JSON: no lookup exception, and the status is 500, not 200.
\<close>

theorem reader_statuses_counterexample:
  "table_get_entity [(''receipt'', ''abc'') \<mapsto> [(''items'', VStr ''oops'')]] ''receipt''
      (reader_receipt_id ''abc.jpg'') = Inr [(''items'', VStr ''oops'' :: int pyval)]
   \<and> status_code (get_receipt_results cents_runtime
        (Inr (table_get_entity [(''receipt'', ''abc'') \<mapsto> [(''items'', VStr ''oops'')]]))
        [''blobName'' \<mapsto> ''abc.jpg'']) = 500"
  by code_simp

text \<open>
  Claim C7. When the three calls succeed, \<^verbatim>\<open>get_upload_url\<close> answers 200 with the JSON
  object of exactly the two fields \<^verbatim>\<open>sasUrl\<close> and \<^verbatim>\<open>blobName\<close>; the object key is the random
  identifier followed by \<^verbatim>\<open>.jpg\<close>, so two calls with different identifiers give
  different keys; and an exception of any step gives 500.
\<close>

theorem upload_url_contract:
  \<open>(\<forall>client key token.
       blob_service_client S = Inr client \<and> account_key client = Inr key
       \<and> generate_blob_sas S
            \<lparr>sas_account_name = account_name client, sas_container_name = ''receipts'',
             sas_blob_name = uuid4 S @ ''.jpg'', sas_account_key = key,
             sas_permission = SasWrite, sas_expiry = utcnow S + 300\<rparr> = Inr token \<longrightarrow>
       get_upload_url R S =
         \<lparr>status_code = 200,
          body = ''{"sasUrl": ''
                 @ encode_str (''https://'' @ account_name client @ ''.blob.core.windows.net/receipts/''
                               @ uuid4 S @ ''.jpg'' @ ''?'' @ token)
                 @ '', "blobName": '' @ encode_str (uuid4 S @ ''.jpg'') @ ''}''\<rparr>)
   \<and> (status_code (get_upload_url R S) = 200 \<longrightarrow>
        (\<exists>url. json_dumps R False
                 (VDict [(''sasUrl'', VStr url), (''blobName'', VStr (upload_blob_name S))])
               = Inr (body (get_upload_url R S))))
   \<and> (\<forall>e. get_upload_url_try R S = Inl e \<longrightarrow>
        get_upload_url R S = \<lparr>status_code = 500, body = ''Failed to generate upload URL.''\<rparr>)
   \<and> (\<forall>e. blob_service_client S = Inl e \<longrightarrow> get_upload_url_try R S = Inl e)
   \<and> (\<forall>client e. blob_service_client S = Inr client \<and> account_key client = Inl e \<longrightarrow>
        get_upload_url_try R S = Inl e)
   \<and> (status_code (get_upload_url R S) = 200 \<or> status_code (get_upload_url R S) = 500)
   \<and> upload_blob_name S = uuid4 S @ ''.jpg''
   \<and> (\<forall>S' :: 'f services. uuid4 S \<noteq> uuid4 S' \<longrightarrow> upload_blob_name S \<noteq> upload_blob_name S')\<close>
proof -
  have enc: \<open>json_dumps R False (VDict [(''sasUrl'', VStr url), (''blobName'', VStr name)])
          = Inr (''{"sasUrl": '' @ encode_str url @ '', "blobName": '' @ encode_str name @ ''}'')\<close>
    for url name
    by (simp add: encode_str_def escape_char_def)
  have 1: \<open>get_upload_url R S =
         \<lparr>status_code = 200,
          body = ''{"sasUrl": ''
                 @ encode_str (''https://'' @ account_name client @ ''.blob.core.windows.net/receipts/''
                               @ uuid4 S @ ''.jpg'' @ ''?'' @ token)
                 @ '', "blobName": '' @ encode_str (uuid4 S @ ''.jpg'') @ ''}''\<rparr>\<close>
    if "blob_service_client S = Inr client" "account_key client = Inr key"
      "generate_blob_sas S
            \<lparr>sas_account_name = account_name client, sas_container_name = ''receipts'',
             sas_blob_name = uuid4 S @ ''.jpg'', sas_account_key = key,
             sas_permission = SasWrite, sas_expiry = utcnow S + 300\<rparr> = Inr token"
    for client key token
    using that
    by (simp add: get_upload_url_def get_upload_url_try_def upload_blob_name_def
        RECEIPT_CONTAINER_NAME_def Let_def enc del: json_dumps.simps)
  have 2: "\<exists>url. json_dumps R False
                 (VDict [(''sasUrl'', VStr url), (''blobName'', VStr (upload_blob_name S))])
               = Inr (body (get_upload_url R S))"
    if "status_code (get_upload_url R S) = 200"
    using that
    by (auto simp: get_upload_url_def get_upload_url_try_def Let_def attempt_eq_Inr
        simp del: json_dumps.simps split: sum.splits)
  have 3: "get_upload_url R S = \<lparr>status_code = 500, body = ''Failed to generate upload URL.''\<rparr>"
    if "get_upload_url_try R S = Inl e" for e
    using that by (simp add: get_upload_url_def)
  have 4: "get_upload_url_try R S = Inl e" if "blob_service_client S = Inl e" for e
    using that by (simp add: get_upload_url_try_def)
  have 5: "get_upload_url_try R S = Inl e"
    if "blob_service_client S = Inr client" "account_key client = Inl e" for client e
    using that by (simp add: get_upload_url_try_def Let_def)
  have 6: "status_code (get_upload_url R S) = 200 \<or> status_code (get_upload_url R S) = 500"
    by (auto simp: get_upload_url_def get_upload_url_try_def Let_def attempt_eq_Inr
        simp del: json_dumps.simps split: sum.splits)
  have 7: "upload_blob_name S = uuid4 S @ ''.jpg''" by (simp add: upload_blob_name_def)
  have 8: "upload_blob_name S \<noteq> upload_blob_name S'" if "uuid4 S \<noteq> uuid4 S'" for S' :: "'f services"
    using that by (simp add: upload_blob_name_def)
  show ?thesis using 1 2 3 4 5 6 7 8 by blast
qed

theorem upload_url_contract_witness:
  "status_code (get_upload_url cents_runtime (ok_services None)) = 200
   \<and> upload_blob_name (ok_services None :: int services) = ''0f8fad5b-d9cb-469f-a165-70867728950e.jpg''
   \<and> status_code (get_upload_url cents_runtime
        ((ok_services None) \<lparr>blob_service_client := Inl (ServiceError ''no connection string'')\<rparr>)) = 500"
proof -
  let ?S = "ok_services None :: int services"
  let ?F = "?S \<lparr>blob_service_client := Inl (ServiceError ''no connection string'')\<rparr>"
  have b: "blob_service_client ?S = Inr \<lparr>account_name = ''acct'', account_key = Inr ''key''\<rparr>"
    by code_simp
  have g: "generate_blob_sas ?S
            \<lparr>sas_account_name = account_name \<lparr>account_name = ''acct'', account_key = Inr ''key''\<rparr>,
             sas_container_name = ''receipts'',
             sas_blob_name = uuid4 ?S @ ''.jpg'', sas_account_key = ''key'',
             sas_permission = SasWrite, sas_expiry = utcnow ?S + 300\<rparr> = Inr ''sig''"
    by (simp add: ok_services_def)
  have f: "get_upload_url_try cents_runtime ?F = Inl (ServiceError ''no connection string'')"
    by code_simp
  note ok = upload_url_contract [of ?S cents_runtime]
  note ko = upload_url_contract [of ?F cents_runtime]
  have k: "account_key \<lparr>account_name = ''acct'', account_key = Inr ''key''\<rparr> = Inr ''key''"
    by simp
  note first = ok [THEN conjunct1, rule_format, OF conjI [OF b conjI [OF k g]]]
  have "status_code (get_upload_url cents_runtime ?S) = 200" by (simp add: first)
  moreover from ok have "upload_blob_name ?S = uuid4 ?S @ ''.jpg''" by blast
  then have "upload_blob_name ?S = ''0f8fad5b-d9cb-469f-a165-70867728950e.jpg''"
    by (simp add: ok_services_def)
  moreover from ko f
  have "get_upload_url cents_runtime ?F
          = \<lparr>status_code = 500, body = ''Failed to generate upload URL.''\<rparr>"
    by blast
  then have "status_code (get_upload_url cents_runtime ?F) = 500" by simp
  ultimately show ?thesis by simp
qed

section \<open>The claims about the stored items and the row key\<close>

lemma json_dumps_number: "is_number v \<Longrightarrow> \<exists>s. json_dumps R False v = Inr s"
  by (cases v) (auto simp: is_number_def)

lemma py_or_default: "v = VNone \<or> is_number v \<Longrightarrow> is_number (py_or R v (VInt 0))"
  by (auto simp: py_or_def is_number_def)

lemma receipt_items_none:
  assumes "map_of kvs ''Items'' = None
           \<or> (\<exists>s v. map_of kvs ''Items'' = Some (VObject s (Some v)) \<and> (v = VNone \<or> v = VList []))"
  shows "receipt_items R (VDict kvs) = Inr []"
  using assms by (auto simp: receipt_items_def)

lemma calculated_subtotal_Nil: "calculated_subtotal R [] = Inr (VInt 0)"
  by (simp add: calculated_subtotal_def total_price_sum_def py_round_def)

text \<open>
  Claim C10, as amended. With at least one recognized document whose fields have no
  \<^verbatim>\<open>Items\<close> entry, or one whose value is null or empty, and whose \<^verbatim>\<open>TotalTax\<close> and \<^verbatim>\<open>Total\<close>
  fields are present with a null or numeric value, \<^verbatim>\<open>AnalyzeReceipt\<close> writes a record
  whose \<^verbatim>\<open>items\<close> is the text \<^verbatim>\<open>[]\<close>, which decodes to the empty list, and whose subtotal
  is 0.
\<close>

theorem no_items_record:
  assumes "float_codec R" and "analyzed_fields S name = Some (VDict kvs)"
    and "map_of kvs ''Items'' = None
         \<or> (\<exists>s v. map_of kvs ''Items'' = Some (VObject s (Some v)) \<and> (v = VNone \<or> v = VList []))"
    and "map_of kvs ''TotalTax'' = Some (VObject tax_str (Some tax_value))" and "tax_value = VNone \<or> is_number tax_value"
    and "map_of kvs ''Total'' = Some (VObject total_str (Some total_value))" and "total_value = VNone \<or> is_number total_value"
  shows "\<exists>encoded.
           AnalyzeReceipt R S name = Inr (Some encoded)
         \<and> json_loads R encoded =
             Inr (VDict [(''PartitionKey'', VStr ''receipt''), (''RowKey'', VStr (analyze_receipt_id name)),
                         (''items'', VStr ''[]''), (''subtotal'', VInt 0),
                         (''tax'', py_or R tax_value (VInt 0)), (''total'', py_or R total_value (VInt 0))])
         \<and> json_loads R ''[]'' = Inr (VList [])
         \<and> process_blob R S name T (''receipt'', analyze_receipt_id name) =
             Some [(''PartitionKey'', VStr ''receipt''), (''RowKey'', VStr (analyze_receipt_id name)),
                   (''items'', VStr ''[]''), (''subtotal'', VInt 0),
                   (''tax'', py_or R tax_value (VInt 0)), (''total'', py_or R total_value (VInt 0))]"
proof -
  let ?entity = "[(''PartitionKey'', VStr ''receipt''), (''RowKey'', VStr (analyze_receipt_id name)),
                   (''items'', VStr ''[]''), (''subtotal'', VInt 0),
                   (''tax'', py_or R tax_value (VInt 0)), (''total'', py_or R total_value (VInt 0))]"
  have items: "receipt_items R (VDict kvs) = Inr []" by (rule receipt_items_none [OF assms(3)])
  have gt: "get_value (VDict kvs) ''TotalTax'' = Inr tax_value"
    and gl: "get_value (VDict kvs) ''Total'' = Inr total_value"
    using assms(4,6) by (auto simp: get_value_Inr)
  have od: "output_data R (analyze_receipt_id name) (VDict kvs) = Inr (VDict ?entity)"
    unfolding output_data_Inr using items gt gl calculated_subtotal_Nil [of R] by simp
  obtain ts where ts: "json_dumps R False (py_or R tax_value (VInt 0)) = Inr ts"
    using json_dumps_number [OF py_or_default [OF assms(5)]] by blast
  obtain ls where ls: "json_dumps R False (py_or R total_value (VInt 0)) = Inr ls"
    using json_dumps_number [OF py_or_default [OF assms(7)]] by blast
  obtain encoded where enc: "json_dumps R False (VDict ?entity) = Inr encoded"
    using ts ls by simp
  have wr: "AnalyzeReceipt R S name = Inr (Some encoded)"
    unfolding AnalyzeReceipt_Some using assms(2) od enc by blast
  have dk: "distinct_keys (VDict ?entity)"
    using py_or_default [OF assms(5), of R] py_or_default [OF assms(7), of R]
    by (simp add: is_number_distinct_keys)
  have ld: "json_loads R encoded = Inr (VDict ?entity)"
    by (rule json_roundtrip [OF assms(1) enc dk])
  have e: "json_loads R ''[]'' = Inr (VList [])"
    by (rule json_roundtrip [OF assms(1)]) simp_all
  have pb: "process_blob R S name T = T((''receipt'', analyze_receipt_id name) \<mapsto> ?entity)"
    by (rule process_blob_written [OF wr ld]) simp_all
  from wr ld e pb show ?thesis by simp
qed

theorem no_items_record_witness:
  "\<exists>encoded. AnalyzeReceipt cents_runtime
       (ok_services (Some [\<lparr>doc_fields = VDict [(''TotalTax'', DocumentField VNone),
                                                 (''Total'', DocumentField (VFloat 1650))]\<rparr>]))
       ''receipts/abc123.jpg'' = Inr (Some encoded)
     \<and> json_loads cents_runtime encoded =
         Inr (VDict [(''PartitionKey'', VStr ''receipt''), (''RowKey'', VStr ''abc123''),
                     (''items'', VStr ''[]''), (''subtotal'', VInt 0),
                     (''tax'', VInt 0), (''total'', VFloat 1650)])"
proof -
  let ?kvs = "[(''TotalTax'', DocumentField VNone), (''Total'', DocumentField (VFloat 1650))]
                :: (string \<times> int pyval) list"
  let ?S = "ok_services (Some [\<lparr>doc_fields = VDict ?kvs\<rparr>])"
  have f: "analyzed_fields ?S ''receipts/abc123.jpg'' = Some (VDict ?kvs)" by code_simp
  have i: "map_of ?kvs ''Items'' = None
           \<or> (\<exists>s v. map_of ?kvs ''Items'' = Some (VObject s (Some v)) \<and> (v = VNone \<or> v = VList []))"
    by simp
  have t: "map_of ?kvs ''TotalTax'' = Some (VObject ''DocumentField'' (Some VNone))"
    by (simp add: DocumentField_def)
  have l: "map_of ?kvs ''Total'' = Some (VObject ''DocumentField'' (Some (VFloat 1650)))"
    by (simp add: DocumentField_def)
  have tn: "(VNone :: int pyval) = VNone \<or> is_number (VNone :: int pyval)" by simp
  have ln: "(VFloat 1650 :: int pyval) = VNone \<or> is_number (VFloat 1650 :: int pyval)"
    by (simp add: is_number_def)
  have k: "analyze_receipt_id ''receipts/abc123.jpg'' = ''abc123''" by code_simp
  have o: "py_or cents_runtime VNone (VInt 0) = VInt 0"
    "py_or cents_runtime (VFloat 1650) (VInt 0) = VFloat 1650"
    by code_simp+
  from no_items_record [OF cents_float_codec f i t tn l ln, of Map.empty]
  show ?thesis unfolding k o by blast
qed

text \<open>
  Claim C10 as stated fails where a later step raises: here the fields have no \<^verbatim>\<open>Items\<close>
  entry and the total's value is an object \<^verbatim>\<open>json.dumps\<close> does not know (a
  \<^verbatim>\<open>CurrencyValue\<close>), so \<^verbatim>\<open>json.dumps(output_data)\<close> raises \<^verbatim>\<open>TypeError\<close> and no record is written.
\<close>

theorem no_items_record_counterexample:
  "AnalyzeReceipt cents_runtime
     (ok_services (Some [\<lparr>doc_fields = VDict
        [(''TotalTax'', DocumentField (VFloat 100)),
         (''Total'', DocumentField (VObject ''CurrencyValue(amount=16.5, symbol=$)'' None))]\<rparr>]))
     ''receipts/abc123.jpg'' = Inr None
   \<and> output_data cents_runtime ''abc123'' (VDict
        [(''TotalTax'', DocumentField (VFloat 100)),
         (''Total'', DocumentField (VObject ''CurrencyValue(amount=16.5, symbol=$)'' None))])
       = Inr (VDict [(''PartitionKey'', VStr ''receipt''), (''RowKey'', VStr ''abc123''),
                     (''items'', VStr ''[]''), (''subtotal'', VInt 0), (''tax'', VFloat 100),
                     (''total'', VObject ''CurrencyValue(amount=16.5, symbol=$)'' None)])"
  by code_simp

lemma list_all2_and_right:
  "list_all2 A xs ys \<Longrightarrow> \<forall>y\<in>set ys. B y \<Longrightarrow> list_all2 (\<lambda>x y. A x y \<and> B y) xs ys"
  by (induction rule: list_all2_induct) auto

lemma receipt_items_sources:
  assumes "receipt_items R receipt = Inr items_list"
  shows "\<exists>src. list_all2 (\<lambda>item d. extract_item R item = Inr d) src items_list
           \<and> (src = [] \<or> (\<exists>kvs s items_value. receipt = VDict kvs
                 \<and> map_of kvs ''Items'' = Some (VObject s (Some items_value))
                 \<and> py_iter items_value = Inr src))"
  using assms
proof (cases rule: receipt_items_cases)
  case none
  then have "list_all2 (\<lambda>item d. extract_item R item = Inr d) [] items_list" by simp
  then show ?thesis by blast
next
  case (some kvs s items_value items)
  from items_loop_Inr [OF some(4)]
  have "list_all2 (\<lambda>item d. extract_item R item = Inr d) items items_list" by simp
  with some(1,2,3) show ?thesis by blast
qed

text \<open>
  Claim C8, as amended. Each element of the stored \<^verbatim>\<open>items\<close> sequence is an object with
  exactly the keys \<^verbatim>\<open>description\<close> and \<^verbatim>\<open>totalPrice\<close>, made from one analysed item in order:
  \<^verbatim>\<open>totalPrice\<close> is a number (the analysed price, or 0), and \<^verbatim>\<open>description\<close> is the value of the
  item's \<^verbatim>\<open>Description\<close> field as it came, a string when the service gave a string and null
  when it gave none: no default is applied to it.
\<close>

theorem stored_items_shape:
  assumes "float_codec R" and "analyzed_fields S name = Some receipt" and "distinct_keys receipt"
    and "AnalyzeReceipt R S name = Inr (Some encoded)"
  shows "\<exists>entity items_json items src.
           json_loads R encoded = Inr (VDict entity)
         \<and> map_of entity ''items'' = Some (VStr items_json)
         \<and> json_loads R items_json = Inr (VList items)
         \<and> (src = [] \<or> (\<exists>kvs s items_value. receipt = VDict kvs
               \<and> map_of kvs ''Items'' = Some (VObject s (Some items_value))
               \<and> py_iter items_value = Inr src))
         \<and> list_all2 (\<lambda>source item. \<exists>s props description price.
               source = VObject s (Some props)
             \<and> get_value props ''Description'' = Inr description
             \<and> get_value props ''TotalPrice'' = Inr price
             \<and> item = VDict [(''description'', description),
                              (''totalPrice'', py_or R price (VInt 0))]
             \<and> is_number (py_or R price (VInt 0))) src items"
proof -
  from assms obtain items_list subtotal items_json tax total where
    1: "receipt_items R receipt = Inr items_list"
    and 2: "calculated_subtotal R items_list = Inr subtotal"
    and 3: "json_loads R items_json = Inr (VList items_list)"
    and 4: "json_loads R encoded =
       Inr (VDict [(''PartitionKey'', VStr ''receipt''), (''RowKey'', VStr (analyze_receipt_id name)),
                   (''items'', VStr items_json), (''subtotal'', subtotal),
                   (''tax'', py_or R tax (VInt 0)), (''total'', py_or R total (VInt 0))])"
    by (rule written_record)
  let ?entity = "[(''PartitionKey'', VStr ''receipt''), (''RowKey'', VStr (analyze_receipt_id name)),
                   (''items'', VStr items_json), (''subtotal'', subtotal),
                   (''tax'', py_or R tax (VInt 0)), (''total'', py_or R total (VInt 0))]"
  let ?shape = "\<lambda>source item. \<exists>s props description price.
               source = VObject s (Some props)
             \<and> get_value props ''Description'' = Inr description
             \<and> get_value props ''TotalPrice'' = Inr price
             \<and> item = VDict [(''description'', description),
                              (''totalPrice'', py_or R price (VInt 0))]
             \<and> is_number (py_or R price (VInt 0))"
  from receipt_items_sources [OF 1] obtain src where
    a: "list_all2 (\<lambda>item d. extract_item R item = Inr d) src items_list"
    and s: "src = [] \<or> (\<exists>kvs s items_value. receipt = VDict kvs
                 \<and> map_of kvs ''Items'' = Some (VObject s (Some items_value))
                 \<and> py_iter items_value = Inr src)"
    by blast
  have n: "\<forall>d\<in>set items_list. \<exists>p. dict_index d ''totalPrice'' = Inr p \<and> is_number p"
    by (rule calculated_subtotal_numbers [OF 2])
  have "list_all2 (\<lambda>item d. extract_item R item = Inr d
                     \<and> (\<exists>p. dict_index d ''totalPrice'' = Inr p \<and> is_number p)) src items_list"
    by (rule list_all2_and_right [OF a n])
  then have sh: "list_all2 ?shape src items_list"
    by (rule list_all2_mono) (auto simp: extract_item_Inr)
  have "json_loads R encoded = Inr (VDict ?entity)
      \<and> map_of ?entity ''items'' = Some (VStr items_json)
      \<and> json_loads R items_json = Inr (VList items_list)
      \<and> (src = [] \<or> (\<exists>kvs s items_value. receipt = VDict kvs
               \<and> map_of kvs ''Items'' = Some (VObject s (Some items_value))
               \<and> py_iter items_value = Inr src))
      \<and> list_all2 ?shape src items_list"
    using 3 4 s sh by simp
  then show ?thesis by blast
qed

theorem stored_items_shape_witness:
  "\<exists>encoded entity items_json items src.
      AnalyzeReceipt cents_runtime (ok_services (Some [\<lparr>doc_fields = example_receipt\<rparr>]))
        ''receipts/abc123.jpg'' = Inr (Some encoded)
    \<and> json_loads cents_runtime encoded = Inr (VDict entity)
    \<and> map_of entity ''items'' = Some (VStr items_json)
    \<and> json_loads cents_runtime items_json = Inr (VList items)
    \<and> list_all2 (\<lambda>source item. \<exists>s props description price.
               source = VObject s (Some props)
             \<and> get_value props ''Description'' = Inr description
             \<and> get_value props ''TotalPrice'' = Inr price
             \<and> item = VDict [(''description'', description),
                              (''totalPrice'', py_or cents_runtime price (VInt 0))]
             \<and> is_number (py_or cents_runtime price (VInt 0))) src items"
proof -
  let ?S = "ok_services (Some [\<lparr>doc_fields = example_receipt\<rparr>]) :: int services"
  obtain encoded where e: "AnalyzeReceipt cents_runtime ?S ''receipts/abc123.jpg'' = Inr (Some encoded)"
    using example_written by blast
  have f: "analyzed_fields ?S ''receipts/abc123.jpg'' = Some example_receipt" by code_simp
  have d: "distinct_keys example_receipt" by code_simp
  from stored_items_shape [OF cents_float_codec f d e] e
  show ?thesis by blast
qed

text \<open>
  Claim C8 as stated fails where the service gives an item no description: the stored
  element's \<^verbatim>\<open>description\<close> is null, not a string. (The tax \<^verbatim>\<open>0.0\<close> is falsy and is stored as
  the integer 0.)
\<close>

theorem stored_items_shape_counterexample:
  "map_option (decode_items cents_runtime)
     (process_blob cents_runtime (ok_services (Some [\<lparr>doc_fields = null_description_receipt\<rparr>]))
        ''receipts/abc123.jpg'' Map.empty (''receipt'', ''abc123''))
   = Some (Inr [(''PartitionKey'', VStr ''receipt''), (''RowKey'', VStr ''abc123''),
                (''items'', VList [VDict [(''description'', VNone), (''totalPrice'', VFloat 250)]]),
                (''subtotal'', VFloat 250), (''tax'', VInt 0), (''total'', VFloat 250)])"
  by code_simp

section \<open>The row key\<close>

lemma analyze_receipt_id_path:
  assumes "CHR ''/'' \<notin> set stem" "CHR ''/'' \<notin> set ext" "CHR ''.'' \<notin> set ext"
    and "\<exists>c\<in>set stem. c \<noteq> CHR ''.''"
  shows "analyze_receipt_id (dir @ CHR ''/'' # stem @ CHR ''.'' # ext) = stem"
proof -
  have b: "blob_basename (dir @ CHR ''/'' # stem @ CHR ''.'' # ext) = stem @ CHR ''.'' # ext"
    using assms(1,2) by (intro blob_basename_path) simp
  have s: "blob_basename stem = stem"
    using assms(1) by (simp add: blob_basename_def last_split_on_absent)
  show ?thesis
    unfolding analyze_receipt_id_def b
    using assms(4) by (simp add: splitext_ext [OF assms(3,2)] s)
qed

lemma process_blob_cases:
  assumes "float_codec R" and "\<forall>receipt. analyzed_fields S name = Some receipt \<longrightarrow> distinct_keys receipt"
  shows "(AnalyzeReceipt R S name = Inr None \<and> (\<forall>T. process_blob R S name T = T))
       \<or> (\<exists>encoded entity. AnalyzeReceipt R S name = Inr (Some encoded)
            \<and> json_loads R encoded = Inr (VDict entity)
            \<and> map_of entity ''PartitionKey'' = Some (VStr ''receipt'')
            \<and> map_of entity ''RowKey'' = Some (VStr (analyze_receipt_id name))
            \<and> (\<forall>T. process_blob R S name T = T((''receipt'', analyze_receipt_id name) \<mapsto> entity)))"
proof -
  obtain out where out: "AnalyzeReceipt R S name = Inr out"
    using AnalyzeReceipt_returns by blast
  show ?thesis
  proof (cases out)
    case None
    with out show ?thesis by (simp add: process_blob_nothing)
  next
    case (Some encoded)
    with out have w: "AnalyzeReceipt R S name = Inr (Some encoded)" by simp
    then obtain receipt where f: "analyzed_fields S name = Some receipt"
      unfolding AnalyzeReceipt_Some by blast
    from assms(2) f have dk: "distinct_keys receipt" by blast
    from written_record [OF assms(1) f dk w]
    obtain items_json subtotal tax total where
      ld: "json_loads R encoded =
       Inr (VDict [(''PartitionKey'', VStr ''receipt''), (''RowKey'', VStr (analyze_receipt_id name)),
                   (''items'', VStr items_json), (''subtotal'', subtotal),
                   (''tax'', py_or R tax (VInt 0)), (''total'', py_or R total (VInt 0))])"
      by metis
    let ?entity = "[(''PartitionKey'', VStr ''receipt''), (''RowKey'', VStr (analyze_receipt_id name)),
                   (''items'', VStr items_json), (''subtotal'', subtotal),
                   (''tax'', py_or R tax (VInt 0)), (''total'', py_or R total (VInt 0))]"
    have "process_blob R S name T = T((''receipt'', analyze_receipt_id name) \<mapsto> ?entity)" for T
      by (rule process_blob_written [OF w ld]) simp_all
    then have "AnalyzeReceipt R S name = Inr (Some encoded)
            \<and> json_loads R encoded = Inr (VDict ?entity)
            \<and> map_of ?entity ''PartitionKey'' = Some (VStr ''receipt'')
            \<and> map_of ?entity ''RowKey'' = Some (VStr (analyze_receipt_id name))
            \<and> (\<forall>T. process_blob R S name T = T((''receipt'', analyze_receipt_id name) \<mapsto> ?entity))"
      using w ld by simp
    then show ?thesis by blast
  qed
qed

text \<open>
  Claim C6. The row key of a written record is the blob name's last path component with
  its extension stripped by \<^verbatim>\<open>os.path.splitext\<close>, a function of the name alone (for
  \<^verbatim>\<open>dir/stem.ext\<close> it is \<^verbatim>\<open>stem\<close>). Processing the same name twice, whatever the two analyses
  return, touches no row but the one with that key; when the second run writes, the
  table is as if only the second had run (it overwrites the first); and a repeated run
  in the same environment changes nothing.
\<close>

theorem row_key_deterministic:
  assumes "float_codec R"
    and "\<And>receipt. analyzed_fields S1 name = Some receipt \<Longrightarrow> distinct_keys receipt"
    and "\<And>receipt. analyzed_fields S2 name = Some receipt \<Longrightarrow> distinct_keys receipt"
  shows "analyze_receipt_id name = fst (splitext (blob_basename name))
       \<and> (\<forall>dir stem ext. name = dir @ CHR ''/'' # stem @ CHR ''.'' # ext
             \<and> CHR ''/'' \<notin> set stem \<and> CHR ''/'' \<notin> set ext \<and> CHR ''.'' \<notin> set ext
             \<and> (\<exists>c\<in>set stem. c \<noteq> CHR ''.'') \<longrightarrow> analyze_receipt_id name = stem)
       \<and> (\<forall>encoded. AnalyzeReceipt R S1 name = Inr (Some encoded) \<longrightarrow>
            (\<exists>entity. json_loads R encoded = Inr (VDict entity)
               \<and> map_of entity ''PartitionKey'' = Some (VStr ''receipt'')
               \<and> map_of entity ''RowKey'' = Some (VStr (analyze_receipt_id name))
               \<and> process_blob R S1 name T = T((''receipt'', analyze_receipt_id name) \<mapsto> entity)))
       \<and> (\<forall>k. k \<noteq> (''receipt'', analyze_receipt_id name) \<longrightarrow>
            process_blob R S2 name (process_blob R S1 name T) k = T k)
       \<and> (AnalyzeReceipt R S2 name \<noteq> Inr None \<longrightarrow>
            process_blob R S2 name (process_blob R S1 name T) = process_blob R S2 name T)
       \<and> process_blob R S1 name (process_blob R S1 name T) = process_blob R S1 name T"
proof -
  have w1: "\<forall>receipt. analyzed_fields S1 name = Some receipt \<longrightarrow> distinct_keys receipt"
    using assms(2) by blast
  have w2: "\<forall>receipt. analyzed_fields S2 name = Some receipt \<longrightarrow> distinct_keys receipt"
    using assms(3) by blast
  note c1 = process_blob_cases [OF assms(1) w1]
  note c2 = process_blob_cases [OF assms(1) w2]
  have a: "analyze_receipt_id name = fst (splitext (blob_basename name))"
    by (simp add: analyze_receipt_id_def)
  have b: "analyze_receipt_id name = stem"
    if "name = dir @ CHR ''/'' # stem @ CHR ''.'' # ext" "CHR ''/'' \<notin> set stem"
      "CHR ''/'' \<notin> set ext" "CHR ''.'' \<notin> set ext" "\<exists>c\<in>set stem. c \<noteq> CHR ''.''" for dir stem ext
    unfolding that(1) by (rule analyze_receipt_id_path [OF that(2-5)])
  have c: "\<exists>entity. json_loads R encoded = Inr (VDict entity)
               \<and> map_of entity ''PartitionKey'' = Some (VStr ''receipt'')
               \<and> map_of entity ''RowKey'' = Some (VStr (analyze_receipt_id name))
               \<and> process_blob R S1 name T = T((''receipt'', analyze_receipt_id name) \<mapsto> entity)"
    if "AnalyzeReceipt R S1 name = Inr (Some encoded)" for encoded
    using c1 that by auto
  have d: "process_blob R S2 name (process_blob R S1 name T) k = T k"
    if "k \<noteq> (''receipt'', analyze_receipt_id name)" for k
    using c1 c2 that by (elim disjE exE conjE) simp_all
  have e: "process_blob R S2 name (process_blob R S1 name T) = process_blob R S2 name T"
    if "AnalyzeReceipt R S2 name \<noteq> Inr None"
    using c1 c2 that by (elim disjE exE conjE) simp_all
  have f: "process_blob R S1 name (process_blob R S1 name T) = process_blob R S1 name T"
    using c1 by (elim disjE exE conjE) simp_all
  show ?thesis using a b c d e f by blast
qed

theorem row_key_deterministic_witness:
  "analyze_receipt_id ''receipts/abc123.jpg'' = ''abc123''
   \<and> process_blob cents_runtime (ok_services (Some [\<lparr>doc_fields = example_receipt\<rparr>])) ''receipts/abc123.jpg''
       (process_blob cents_runtime (ok_services (Some [\<lparr>doc_fields = null_description_receipt\<rparr>]))
          ''receipts/abc123.jpg'' Map.empty)
     = process_blob cents_runtime (ok_services (Some [\<lparr>doc_fields = example_receipt\<rparr>]))
         ''receipts/abc123.jpg'' Map.empty"
proof -
  let ?S1 = "ok_services (Some [\<lparr>doc_fields = null_description_receipt\<rparr>]) :: int services"
  let ?S2 = "ok_services (Some [\<lparr>doc_fields = example_receipt\<rparr>]) :: int services"
  have f1: "analyzed_fields ?S1 ''receipts/abc123.jpg'' = Some null_description_receipt" by code_simp
  have f2: "analyzed_fields ?S2 ''receipts/abc123.jpg'' = Some example_receipt" by code_simp
  have d1: "distinct_keys receipt" if "analyzed_fields ?S1 ''receipts/abc123.jpg'' = Some receipt" for receipt
  proof -
    have "distinct_keys null_description_receipt" by code_simp
    with that f1 show ?thesis by simp
  qed
  have d2: "distinct_keys receipt" if "analyzed_fields ?S2 ''receipts/abc123.jpg'' = Some receipt" for receipt
  proof -
    have "distinct_keys example_receipt" by code_simp
    with that f2 show ?thesis by simp
  qed
  have w: "AnalyzeReceipt cents_runtime ?S2 ''receipts/abc123.jpg'' \<noteq> Inr None"
    using example_written by auto
  have k: "analyze_receipt_id ''receipts/abc123.jpg'' = ''abc123''" by code_simp
  from row_key_deterministic [where R = cents_runtime and ?S1.0 = ?S1 and ?S2.0 = ?S2
      and name = "''receipts/abc123.jpg''" and T = Map.empty, OF cents_float_codec d1 d2] w k
  show ?thesis by blast
qed

end
